theory Spec2Isabelle
  imports Complex_Main "HOL-Library.Word" "HOL-Library.AList"
begin

section \<open>The transport network of network-monitor\<close>

text \<open>
  A shallow embedding of \<^verbatim>\<open>inc/network-monitor/transport-network.h\<close> and
  \<^verbatim>\<open>src/transport-network.cpp\<close>.

  \<^item> \<^verbatim>\<open>unsigned int\<close> is a 32-bit word (addition wraps), \<^verbatim>\<open>long long int\<close> a 64-bit
    word read with \<open>sint\<close>.
  \<^item> \<^verbatim>\<open>std::unordered_map\<close> is an association list: \<open>map_of\<close> is \<^verbatim>\<open>find\<close>, the order of
    the list is the (unspecified) iteration order.
  \<^item> A \<^verbatim>\<open>shared_ptr<GraphNode>\<close> is the id of the station: the map of stations holds the only
    node of an id, nodes are never removed, and the node's \<^verbatim>\<open>id\<close> is its key.
  \<^item> \<^verbatim>\<open>RouteInternal\<close> and \<^verbatim>\<open>GraphEdge\<close> objects are made by \<^verbatim>\<open>make_shared\<close>; each
    carries the address it was allocated at (a counter of the network), so that the
    source's pointer comparisons are comparisons of addresses. A route never changes after
    its creation, so an edge holds its route by value. An edge lives in the \<^verbatim>\<open>edges\<close>
    vector of exactly one node and is held there by value.
  \<^item> An exception or an out-of-range access is a value of type \<open>error\<close>.
\<close>

type_synonym Id = string

datatype error =
    RuntimeError string      \<comment> \<open>\<^verbatim>\<open>std::runtime_error\<close>\<close>
  | JsonException string     \<comment> \<open>\<^verbatim>\<open>nlohmann::json::exception\<close> (out_of_range, type_error)\<close>
  | OutOfRange               \<comment> \<open>\<^verbatim>\<open>std::out_of_range\<close> of \<^verbatim>\<open>unordered_map::at\<close>\<close>
  | UndefinedBehaviour       \<comment> \<open>a read past the end of a vector, a null dereference\<close>

subsection \<open>The public structs\<close>

record Station =
  st_id :: Id
  st_name :: string

record Route =
  rt_id :: Id
  rt_direction :: string
  rt_lineId :: Id
  rt_startStationId :: Id
  rt_endStationId :: Id
  rt_stops :: "Id list"

record Line =
  ln_id :: Id
  ln_name :: string
  ln_routes :: "Route list"

text \<open>
  \<^verbatim>\<open>enum class Type { In, Out }\<close>; \<open>Unrecognised\<close> stands for any other value of the
  underlying type, which the \<^verbatim>\<open>default:\<close> branch of \<^verbatim>\<open>RecordPassengerEvent\<close> handles.
\<close>

datatype PassengerEventType = In | Out | Unrecognised

record PassengerEvent =
  ev_stationId :: Id
  ev_type :: PassengerEventType
  ev_timestamp :: nat

record Step =
  step_startStationId :: Id
  step_endStationId :: Id
  step_lineId :: Id
  step_routeId :: Id
  step_travelTime :: "32 word"

record TravelRoute =
  tr_startStationId :: Id
  tr_endStationId :: Id
  tr_totalTravelTime :: "32 word"
  tr_steps :: "Step list"

text \<open>\<^verbatim>\<open>TravelRoute{}\<close>: every member has its default initialiser.\<close>

definition default_TravelRoute :: TravelRoute where
  "default_TravelRoute =
     \<lparr>tr_startStationId = [], tr_endStationId = [], tr_totalTravelTime = 0, tr_steps = []\<rparr>"

subsection \<open>The private structs\<close>

text \<open>
  \<open>ri_line\<close> is the id of the line the route points back to: the source reads nothing
  else through \<^verbatim>\<open>route->line\<close>.
\<close>

record RouteInternal =
  ri_addr :: nat
  ri_id :: Id
  ri_line :: Id
  ri_stops :: "Id list"

record GraphEdge =
  e_addr :: nat
  e_route :: RouteInternal
  e_nextStop :: Id
  e_travelTime :: "32 word"

record GraphNode =
  gn_id :: Id
  gn_name :: string
  gn_passengerCount :: "64 word"
  gn_edges :: "GraphEdge list"

record LineInternal =
  li_id :: Id
  li_name :: string
  li_routes :: "(Id \<times> RouteInternal) list"

record TransportNetwork =
  stations :: "(Id \<times> GraphNode) list"
  lines :: "(Id \<times> LineInternal) list"
  next_addr :: nat

text \<open>The default constructor.\<close>

definition empty_network :: TransportNetwork where
  "empty_network = \<lparr>stations = [], lines = [], next_addr = 0\<rparr>"

subsection \<open>Lookups\<close>

definition GetStation :: "TransportNetwork \<Rightarrow> Id \<Rightarrow> GraphNode option" where
  "GetStation n stationId = map_of (stations n) stationId"

definition GetLine :: "TransportNetwork \<Rightarrow> Id \<Rightarrow> LineInternal option" where
  "GetLine n lineId = map_of (lines n) lineId"

definition GetRoute :: "TransportNetwork \<Rightarrow> Id \<Rightarrow> Id \<Rightarrow> RouteInternal option" where
  "GetRoute n lineId routeId =
     (case GetLine n lineId of
        None \<Rightarrow> None
      | Some line \<Rightarrow> map_of (li_routes line) routeId)"

text \<open>
  \<^verbatim>\<open>FindEdgeForRoute\<close>: \<^verbatim>\<open>std::find_if\<close> with \<^verbatim>\<open>edge->route == route\<close>, a comparison of
  pointers; \<open>None\<close> is \<^verbatim>\<open>edges.end()\<close>.
\<close>

definition FindEdgeForRoute :: "GraphNode \<Rightarrow> RouteInternal \<Rightarrow> GraphEdge option" where
  "FindEdgeForRoute nd route =
     find (\<lambda>edge. ri_addr (e_route edge) = ri_addr route) (gn_edges nd)"

text \<open>A write through a node pointer: the node stored under the id is replaced.\<close>

definition modify_node :: "Id \<Rightarrow> (GraphNode \<Rightarrow> GraphNode) \<Rightarrow> TransportNetwork \<Rightarrow> TransportNetwork" where
  "modify_node stationId f n = n\<lparr>stations := AList.map_entry stationId f (stations n)\<rparr>"

text \<open>The edges leaving a node; an id that is no station of the network has none.\<close>

definition edges_of :: "TransportNetwork \<Rightarrow> Id \<Rightarrow> GraphEdge list" where
  "edges_of n stationId = (case GetStation n stationId of None \<Rightarrow> [] | Some nd \<Rightarrow> gn_edges nd)"

subsection \<open>AddStation, AddLine\<close>

definition AddStation :: "TransportNetwork \<Rightarrow> Station \<Rightarrow> bool \<times> TransportNetwork" where
  "AddStation n station =
     (if GetStation n (st_id station) \<noteq> None then (False, n)
      else (True, n\<lparr>stations := stations n @
              [(st_id station,
                \<lparr>gn_id = st_id station, gn_name = st_name station,
                 gn_passengerCount = 0, gn_edges = []\<rparr>)]\<rparr>))"

text \<open>
  The first loop of \<^verbatim>\<open>AddRouteToLine\<close>: every stop must be a station of the network.
  \<open>None\<close> is the \<^verbatim>\<open>return false\<close> inside the loop.
\<close>

fun gather_stops :: "TransportNetwork \<Rightarrow> Id list \<Rightarrow> Id list option" where
  "gather_stops n [] = Some []"
| "gather_stops n (stopId # rest) =
     (case GetStation n stopId of
        None \<Rightarrow> None
      | Some station \<Rightarrow>
          (case gather_stops n rest of None \<Rightarrow> None | Some stops \<Rightarrow> Some (stopId # stops)))"

text \<open>
  The second loop of \<^verbatim>\<open>AddRouteToLine\<close>, \<^verbatim>\<open>idx\<close> from 0 while \<^verbatim>\<open>idx < stops.size() - 1\<close>:
  one new edge with travel time 0 at every stop but the last.
\<close>

fun add_edges :: "RouteInternal \<Rightarrow> Id list \<Rightarrow> TransportNetwork \<Rightarrow> TransportNetwork" where
  "add_edges routeInternal (thisStop # nextStop # rest) n =
     add_edges routeInternal (nextStop # rest)
       ((modify_node thisStop
          (\<lambda>nd. nd\<lparr>gn_edges := gn_edges nd @
             [\<lparr>e_addr = next_addr n, e_route = routeInternal,
               e_nextStop = nextStop, e_travelTime = 0\<rparr>]\<rparr>) n)
        \<lparr>next_addr := Suc (next_addr n)\<rparr>)"
| "add_edges routeInternal [lastStop] n = n"
| "add_edges routeInternal [] n = n"

text \<open>
  \<^verbatim>\<open>AddRouteToLine\<close> works on the network and on the line under construction. With no
  stops at all, \<^verbatim>\<open>stops.size() - 1\<close> wraps around in \<^verbatim>\<open>size_t\<close> and the loop reads
  \<^verbatim>\<open>stops[0]\<close> of an empty vector.
\<close>

definition AddRouteToLine ::
  "TransportNetwork \<Rightarrow> Route \<Rightarrow> LineInternal \<Rightarrow> error + (bool \<times> TransportNetwork \<times> LineInternal)" where
  "AddRouteToLine n route lineInternal =
     (if map_of (li_routes lineInternal) (rt_id route) \<noteq> None then Inr (False, n, lineInternal)
      else
        (case gather_stops n (rt_stops route) of
           None \<Rightarrow> Inr (False, n, lineInternal)
         | Some stops \<Rightarrow>
             (let routeInternal =
                    \<lparr>ri_addr = next_addr n, ri_id = rt_id route,
                     ri_line = li_id lineInternal, ri_stops = stops\<rparr>;
                  n1 = n\<lparr>next_addr := Suc (next_addr n)\<rparr>
              in if stops = [] then Inl UndefinedBehaviour
                 else Inr (True, add_edges routeInternal stops n1,
                           lineInternal\<lparr>li_routes :=
                             AList.update (rt_id route) routeInternal (li_routes lineInternal)\<rparr>))))"

text \<open>The loop of \<^verbatim>\<open>AddLine\<close> over \<^verbatim>\<open>line.routes\<close>, left at the first route that fails.\<close>

fun add_routes ::
  "TransportNetwork \<Rightarrow> Route list \<Rightarrow> LineInternal \<Rightarrow> error + (bool \<times> TransportNetwork \<times> LineInternal)" where
  "add_routes n [] lineInternal = Inr (True, n, lineInternal)"
| "add_routes n (route # rest) lineInternal =
     (case AddRouteToLine n route lineInternal of
        Inl e \<Rightarrow> Inl e
      | Inr (ok, n1, lineInternal1) \<Rightarrow>
          if \<not> ok then Inr (False, n1, lineInternal1)
          else add_routes n1 rest lineInternal1)"

definition AddLine :: "TransportNetwork \<Rightarrow> Line \<Rightarrow> error + (bool \<times> TransportNetwork)" where
  "AddLine n line =
     (if GetLine n (ln_id line) \<noteq> None then Inr (False, n)
      else
        (case add_routes n (ln_routes line)
                \<lparr>li_id = ln_id line, li_name = ln_name line, li_routes = []\<rparr> of
           Inl e \<Rightarrow> Inl e
         | Inr (ok, n1, lineInternal) \<Rightarrow>
             if \<not> ok then Inr (False, n1)
             else Inr (True, n1\<lparr>lines := lines n1 @ [(ln_id line, lineInternal)]\<rparr>)))"

subsection \<open>Passenger events\<close>

definition RecordPassengerEvent :: "TransportNetwork \<Rightarrow> PassengerEvent \<Rightarrow> bool \<times> TransportNetwork" where
  "RecordPassengerEvent n event =
     (case GetStation n (ev_stationId event) of
        None \<Rightarrow> (False, n)
      | Some stationNode \<Rightarrow>
          (case ev_type event of
             In \<Rightarrow> (True, modify_node (ev_stationId event)
                            (\<lambda>nd. nd\<lparr>gn_passengerCount := gn_passengerCount nd + 1\<rparr>) n)
           | Out \<Rightarrow> (True, modify_node (ev_stationId event)
                            (\<lambda>nd. nd\<lparr>gn_passengerCount := gn_passengerCount nd - 1\<rparr>) n)
           | Unrecognised \<Rightarrow> (False, n)))"

definition GetPassengerCount :: "TransportNetwork \<Rightarrow> Id \<Rightarrow> error + 64 word" where
  "GetPassengerCount n station =
     (case GetStation n station of
        None \<Rightarrow> Inl (RuntimeError (''Could not find station in the network: '' @ station))
      | Some stationNode \<Rightarrow> Inr (gn_passengerCount stationNode))"

text \<open>A sequence of calls of \<^verbatim>\<open>RecordPassengerEvent\<close>, whatever each call returns.\<close>

definition record_events :: "TransportNetwork \<Rightarrow> PassengerEvent list \<Rightarrow> TransportNetwork" where
  "record_events n events = fold (\<lambda>event n'. snd (RecordPassengerEvent n' event)) events n"

subsection \<open>Routes serving a station\<close>

text \<open>
  The second loop of \<^verbatim>\<open>GetRoutesServingStation\<close> over the routes of one line.
  \<^verbatim>\<open>route->stops[route->stops.size() - 1]\<close> of a route without stops reads out of range.
\<close>

fun end_stop_routes :: "Id \<Rightarrow> (Id \<times> RouteInternal) list \<Rightarrow> error + Id list" where
  "end_stop_routes station [] = Inr []"
| "end_stop_routes station ((k, route) # rest) =
     (if ri_stops route = [] then Inl UndefinedBehaviour
      else
        (case end_stop_routes station rest of
           Inl e \<Rightarrow> Inl e
         | Inr routes \<Rightarrow>
             Inr (if station = last (ri_stops route) then ri_id route # routes else routes)))"

fun end_stop_lines :: "Id \<Rightarrow> (Id \<times> LineInternal) list \<Rightarrow> error + Id list" where
  "end_stop_lines station [] = Inr []"
| "end_stop_lines station ((k, line) # rest) =
     (case end_stop_routes station (li_routes line) of
        Inl e \<Rightarrow> Inl e
      | Inr routes \<Rightarrow>
          (case end_stop_lines station rest of
             Inl e \<Rightarrow> Inl e
           | Inr routes' \<Rightarrow> Inr (routes @ routes')))"

definition GetRoutesServingStation :: "TransportNetwork \<Rightarrow> Id \<Rightarrow> error + Id list" where
  "GetRoutesServingStation n station =
     (case GetStation n station of
        None \<Rightarrow> Inr []
      | Some stationNode \<Rightarrow>
          (case end_stop_lines station (lines n) of
             Inl e \<Rightarrow> Inl e
           | Inr routes \<Rightarrow> Inr (map (\<lambda>edge. ri_id (e_route edge)) (gn_edges stationNode) @ routes)))"

subsection \<open>Travel times\<close>

text \<open>The lambda of \<^verbatim>\<open>SetTravelTime\<close>, as the new edge vector and whether an edge was found.\<close>

definition setTravelTime :: "Id \<Rightarrow> 32 word \<Rightarrow> GraphEdge list \<Rightarrow> GraphEdge list" where
  "setTravelTime to travelTime edges =
     map (\<lambda>edge. if e_nextStop edge = to then edge\<lparr>e_travelTime := travelTime\<rparr> else edge) edges"

definition SetTravelTime ::
  "TransportNetwork \<Rightarrow> Id \<Rightarrow> Id \<Rightarrow> 32 word \<Rightarrow> bool \<times> TransportNetwork" where
  "SetTravelTime n stationA stationB travelTime =
     (case GetStation n stationA of
        None \<Rightarrow> (False, n)
      | Some stationANode \<Rightarrow>
          (case GetStation n stationB of
             None \<Rightarrow> (False, n)
           | Some stationBNode \<Rightarrow>
               (let n1 = modify_node stationA
                           (\<lambda>nd. nd\<lparr>gn_edges := setTravelTime stationB travelTime (gn_edges nd)\<rparr>) n;
                    n2 = modify_node stationB
                           (\<lambda>nd. nd\<lparr>gn_edges := setTravelTime stationA travelTime (gn_edges nd)\<rparr>) n1;
                    foundAnyEdge =
                      ((\<exists>edge \<in> set (gn_edges stationANode). e_nextStop edge = stationB) \<or>
                       (\<exists>edge \<in> set (gn_edges stationBNode). e_nextStop edge = stationA))
                in (foundAnyEdge, n2))))"

definition GetTravelTime :: "TransportNetwork \<Rightarrow> Id \<Rightarrow> Id \<Rightarrow> 32 word" where
  "GetTravelTime n stationA stationB =
     (case GetStation n stationA of
        None \<Rightarrow> 0
      | Some stationANode \<Rightarrow>
          (case GetStation n stationB of
             None \<Rightarrow> 0
           | Some stationBNode \<Rightarrow>
               (case find (\<lambda>edge. e_nextStop edge = stationB) (gn_edges stationANode) of
                  Some edge \<Rightarrow> e_travelTime edge
                | None \<Rightarrow>
                    (case find (\<lambda>edge. e_nextStop edge = stationA) (gn_edges stationBNode) of
                       Some edge \<Rightarrow> e_travelTime edge
                     | None \<Rightarrow> 0))))"

text \<open>
  The loop of the four-argument \<^verbatim>\<open>GetTravelTime\<close> over the stops of the route, with the
  locals \<^verbatim>\<open>travelTime\<close> and \<^verbatim>\<open>foundA\<close>. A stop of a route is a node of the network;
  the lookup of its id stands for the dereference of the pointer.
\<close>

fun walk_route ::
  "TransportNetwork \<Rightarrow> RouteInternal \<Rightarrow> Id \<Rightarrow> Id \<Rightarrow> 32 word \<Rightarrow> bool \<Rightarrow> Id list \<Rightarrow> 32 word" where
  "walk_route n routeInternal stationA stationB travelTime foundA [] = 0"
| "walk_route n routeInternal stationA stationB travelTime foundA (stop # rest) =
     (let foundA1 = (foundA \<or> stop = stationA)
      in if stop = stationB then travelTime
         else if foundA1 then
           (case GetStation n stop of
              None \<Rightarrow> 0
            | Some stopNode \<Rightarrow>
                (case FindEdgeForRoute stopNode routeInternal of
                   None \<Rightarrow> 0
                 | Some edge \<Rightarrow>
                     walk_route n routeInternal stationA stationB
                       (travelTime + e_travelTime edge) foundA1 rest))
         else walk_route n routeInternal stationA stationB travelTime foundA1 rest)"

definition GetTravelTimeOnRoute :: "TransportNetwork \<Rightarrow> Id \<Rightarrow> Id \<Rightarrow> Id \<Rightarrow> Id \<Rightarrow> 32 word" where
  "GetTravelTimeOnRoute n line route stationA stationB =
     (case GetRoute n line route of
        None \<Rightarrow> 0
      | Some routeInternal \<Rightarrow>
          (case GetStation n stationA of
             None \<Rightarrow> 0
           | Some stationANode \<Rightarrow>
               (case GetStation n stationB of
                  None \<Rightarrow> 0
                | Some stationBNode \<Rightarrow>
                    walk_route n routeInternal stationA stationB 0 False (ri_stops routeInternal))))"

subsection \<open>The fastest travel route\<close>

text \<open>
  A \<^verbatim>\<open>PathStop\<close> is a node and the edge used to get to it (\<open>None\<close> is \<^verbatim>\<open>nullptr\<close>).
  The network does not change during a query, so equality of the values is the equality
  of the pointers that \<^verbatim>\<open>PathStop::operator==\<close> tests.
\<close>

record PathStop =
  node :: Id
  edge :: "GraphEdge option"

type_synonym PathStopDist = "PathStop \<times> 32 word"

text \<open>The three locals of Dijkstra's algorithm in \<^verbatim>\<open>GetFastestTravelRoute\<close>.\<close>

record Dijkstra =
  distFromA :: "(PathStop \<times> 32 word) list"
  previousStop :: "(PathStop \<times> PathStop) list"
  nodesToVisit :: "PathStopDist list"

text \<open>
  \<^verbatim>\<open>nodesToVisit.top()\<close> with \<^verbatim>\<open>PathStopDistCmp\<close>: an entry of least distance. Which of
  several entries of the same least distance a binary heap yields is not specified; here
  it is the one pushed first.
\<close>

fun top :: "PathStopDist list \<Rightarrow> PathStopDist" where
  "top (x # xs) = fold (\<lambda>y m. if snd y < snd m then y else m) xs x"

text \<open>The body of the loop over \<^verbatim>\<open>currStation->edges\<close>.\<close>

definition relax :: "PathStop \<Rightarrow> 32 word \<Rightarrow> GraphEdge \<Rightarrow> Dijkstra \<Rightarrow> Dijkstra" where
  "relax currStop currentDistFromA neighborEdge st =
     (let neighbor = \<lparr>node = e_nextStop neighborEdge, edge = Some neighborEdge\<rparr>;
          neighborDistFromA =
            (case edge currStop of
               None \<Rightarrow> currentDistFromA + e_travelTime neighborEdge
             | Some edgeToCurrStation \<Rightarrow>
                 if ri_addr (e_route edgeToCurrStation) \<noteq> ri_addr (e_route neighborEdge)
                 then currentDistFromA + e_travelTime neighborEdge + 5
                 else currentDistFromA + e_travelTime neighborEdge);
          st' = st\<lparr>distFromA := AList.update neighbor neighborDistFromA (distFromA st),
                   previousStop := AList.update neighbor currStop (previousStop st),
                   nodesToVisit := nodesToVisit st @ [(neighbor, neighborDistFromA)]\<rparr>
      in case map_of (distFromA st) neighbor of
           None \<Rightarrow> st'
         | Some d \<Rightarrow> if neighborDistFromA < d then st' else st)"

text \<open>One turn of the \<^verbatim>\<open>while\<close> loop, for a queue that is not empty.\<close>

definition dijkstra_step :: "TransportNetwork \<Rightarrow> Id \<Rightarrow> Dijkstra \<Rightarrow> Dijkstra" where
  "dijkstra_step n stationB st =
     (let currStop = fst (top (nodesToVisit st));
          currentDistFromA = snd (top (nodesToVisit st));
          st1 = st\<lparr>nodesToVisit := remove1 (top (nodesToVisit st)) (nodesToVisit st)\<rparr>
      in if node currStop = stationB then st1
         else fold (relax currStop currentDistFromA) (edges_of n (node currStop)) st1)"

text \<open>
  The loop ends: a turn either lowers the distance recorded for some \<^verbatim>\<open>PathStop\<close> (or
  records a first one), or it changes no record and shortens the queue. The stops that
  can be recorded are the targets of the edges of the network.
\<close>

definition all_edges :: "TransportNetwork \<Rightarrow> GraphEdge list" where
  "all_edges n = concat (map (\<lambda>kv. gn_edges (snd kv)) (stations n))"

definition neighbor_of :: "GraphEdge \<Rightarrow> PathStop" where
  "neighbor_of e = \<lparr>node = e_nextStop e, edge = Some e\<rparr>"

definition potential :: "TransportNetwork \<Rightarrow> Dijkstra \<Rightarrow> nat" where
  "potential n st =
     (\<Sum>s \<in> neighbor_of ` set (all_edges n).
        case map_of (distFromA st) s of None \<Rightarrow> 2 ^ 32 | Some d \<Rightarrow> unat d)"

lemma edges_of_subset: "set (edges_of n x) \<subseteq> set (all_edges n)"
proof (cases "GetStation n x")
  case None then show ?thesis by (simp add: edges_of_def)
next
  case (Some nd)
  then have "(x, nd) \<in> set (stations n)" by (auto simp: GetStation_def dest: map_of_SomeD)
  then show ?thesis using Some by (force simp: edges_of_def all_edges_def)
qed

lemma top_in: "q \<noteq> [] \<Longrightarrow> top q \<in> set q"
proof -
  have "fold (\<lambda>y m. if snd y < snd m then y else m) xs x \<in> set (x # xs)" for xs and x :: PathStopDist
    by (induction xs arbitrary: x) auto
  then show "q \<noteq> [] \<Longrightarrow> top q \<in> set q" by (cases q) auto
qed

lemma relax_potential:
  assumes "f \<in> set (all_edges n)"
  shows "relax c d f st = st \<or> potential n (relax c d f st) < potential n st"
proof (cases "relax c d f st = st")
  case True then show ?thesis by simp
next
  case False
  let ?nb = "\<lparr>node = e_nextStop f, edge = Some f\<rparr>"
  let ?S = "neighbor_of ` set (all_edges n)"
  obtain nd where st': "distFromA (relax c d f st) = AList.update ?nb nd (distFromA st)"
    and lt: "case map_of (distFromA st) ?nb of None \<Rightarrow> True | Some old \<Rightarrow> nd < old"
    using False by (auto simp: relax_def Let_def split: option.splits if_splits)
  let ?g = "\<lambda>st s. case map_of (distFromA st) s of None \<Rightarrow> (2::nat) ^ 32 | Some d \<Rightarrow> unat d"
  have in_S: "?nb \<in> ?S" using assms by (auto simp: neighbor_of_def intro!: image_eqI[where x=f])
  have un: "unat nd < 2 ^ 32" using unsigned_less[of nd, where 'a=nat] by simp
  have le: "\<forall>s\<in>?S. ?g (relax c d f st) s \<le> ?g st s"
    using lt un by (auto simp: st' update_conv' word_less_nat_alt split: option.splits)
  have less: "?g (relax c d f st) ?nb < ?g st ?nb"
    using lt un by (auto simp: st' update_conv' word_less_nat_alt split: option.splits)
  have "sum (?g (relax c d f st)) ?S < sum (?g st) ?S"
    by (rule sum_strict_mono_ex1) (use le less in_S in auto)
  then show ?thesis by (simp add: potential_def)
qed

lemma fold_relax_potential:
  assumes "set fs \<subseteq> set (all_edges n)"
  shows "fold (relax c d) fs st = st \<or> potential n (fold (relax c d) fs st) < potential n st"
  using assms
proof (induction fs arbitrary: st)
  case Nil then show ?case by simp
next
  case (Cons f fs)
  from Cons.prems have f: "f \<in> set (all_edges n)" and fs: "set fs \<subseteq> set (all_edges n)" by auto
  from relax_potential[OF f, of c d st] Cons.IH[OF fs, of "relax c d f st"]
  show ?case by auto
qed

lemma potential_queue [simp]: "potential n (st\<lparr>nodesToVisit := q\<rparr>) = potential n st"
  by (simp add: potential_def)

lemma dijkstra_step_decreases:
  assumes "nodesToVisit st \<noteq> []"
  shows "potential n (dijkstra_step n b st) < potential n st \<or>
         (potential n (dijkstra_step n b st) = potential n st \<and>
          length (nodesToVisit (dijkstra_step n b st)) < length (nodesToVisit st))"
proof -
  let ?st1 = "st\<lparr>nodesToVisit := remove1 (top (nodesToVisit st)) (nodesToVisit st)\<rparr>"
  have len: "length (nodesToVisit ?st1) < length (nodesToVisit st)"
    using top_in[OF assms] assms by (simp add: length_remove1 length_greater_0_conv)
  show ?thesis
  proof (cases "node (fst (top (nodesToVisit st))) = b")
    case True
    then show ?thesis using len by (simp add: dijkstra_step_def Let_def)
  next
    case False
    from fold_relax_potential[OF edges_of_subset, where c = "fst (top (nodesToVisit st))"
        and d = "snd (top (nodesToVisit st))" and st = ?st1 and n = n
        and x1 = "node (fst (top (nodesToVisit st)))"]
    show ?thesis using False len by (auto simp: dijkstra_step_def Let_def)
  qed
qed

text \<open>The \<^verbatim>\<open>while (!nodesToVisit.empty())\<close> loop.\<close>

function dijkstra_loop :: "TransportNetwork \<Rightarrow> Id \<Rightarrow> Dijkstra \<Rightarrow> Dijkstra" where
  "dijkstra_loop n stationB st =
     (if nodesToVisit st = [] then st else dijkstra_loop n stationB (dijkstra_step n stationB st))"
  by pat_completeness auto
termination
proof (relation "inv_image (less_than <*lex*> less_than)
                   (\<lambda>(n, b, st). (potential n st, length (nodesToVisit st)))")
  show "wf (inv_image (less_than <*lex*> less_than)
                   (\<lambda>(n, b, st). (potential n st, length (nodesToVisit st))))"
    by (intro wf_inv_image wf_lex_prod wf_less_than)
next
  fix n :: TransportNetwork and stationB :: Id and st :: Dijkstra
  assume "nodesToVisit st \<noteq> []"
  from dijkstra_step_decreases[OF this, of n stationB]
  show "((n, stationB, dijkstra_step n stationB st), n, stationB, st)
       \<in> inv_image (less_than <*lex*> less_than) (\<lambda>(n, b, st). (potential n st, length (nodesToVisit st)))"
    by auto
qed

declare dijkstra_loop.simps [simp del]

text \<open>
  The loop that assembles the path, from B back to A. It follows \<^verbatim>\<open>previousStop\<close> for as
  long as the node is not A, so it is a partial function: \<open>None\<close> is a loop that does
  not end. \<^verbatim>\<open>previousStop.at\<close> throws for a missing key; \<^verbatim>\<open>stop.edge->\<close> of a null edge
  is undefined.
\<close>

partial_function (option) assemble ::
  "(PathStop \<times> PathStop) list \<Rightarrow> Id \<Rightarrow> PathStop \<Rightarrow> Step list \<Rightarrow> (error + Step list) option" where
  "assemble prev stationA stop steps =
     (if node stop = stationA then Some (Inr steps)
      else
        (case map_of prev stop of
           None \<Rightarrow> Some (Inl OutOfRange)
         | Some prevStop \<Rightarrow>
             (case edge stop of
                None \<Rightarrow> Some (Inl UndefinedBehaviour)
              | Some e \<Rightarrow>
                  assemble prev stationA prevStop
                    (steps @ [\<lparr>step_startStationId = node prevStop,
                               step_endStationId = node stop,
                               step_lineId = ri_line (e_route e),
                               step_routeId = ri_id (e_route e),
                               step_travelTime = e_travelTime e\<rparr>]))))"


text \<open>
  \<^verbatim>\<open>std::sort\<close> with \<^verbatim>\<open>PathStopDistCmp\<close> orders by decreasing distance; the order of
  entries of the same distance is not specified, here it is one of the permitted ones.
\<close>

definition sort_PathStopDistCmp :: "PathStopDist list \<Rightarrow> PathStopDist list" where
  "sort_PathStopDistCmp paths = rev (sort_key snd paths)"

definition GetFastestTravelRoute ::
  "TransportNetwork \<Rightarrow> Id \<Rightarrow> Id \<Rightarrow> (error + TravelRoute) option" where
  "GetFastestTravelRoute n stationAId stationBId =
     (case GetStation n stationAId of
        None \<Rightarrow> Some (Inr default_TravelRoute)
      | Some stationA \<Rightarrow>
          (case GetStation n stationBId of
             None \<Rightarrow> Some (Inr default_TravelRoute)
           | Some stationB \<Rightarrow>
               if stationAId = stationBId then
                 Some (Inr \<lparr>tr_startStationId = stationAId, tr_endStationId = stationAId,
                            tr_totalTravelTime = 0,
                            tr_steps = [\<lparr>step_startStationId = stationAId,
                                         step_endStationId = stationAId,
                                         step_lineId = [], step_routeId = [],
                                         step_travelTime = 0\<rparr>]\<rparr>)
               else
                 (let origin = \<lparr>node = stationAId, edge = None\<rparr>;
                      st = dijkstra_loop n stationBId
                             \<lparr>distFromA = [(origin, 0)], previousStop = [],
                              nodesToVisit = [(origin, 0)]\<rparr>;
                      pathsToB = filter (\<lambda>pd. node (fst pd) = stationBId) (distFromA st)
                  in if pathsToB = [] then
                       Some (Inr \<lparr>tr_startStationId = stationAId, tr_endStationId = stationBId,
                                  tr_totalTravelTime = 0, tr_steps = []\<rparr>)
                     else
                       (let fastestPathToB = last (sort_PathStopDistCmp pathsToB)
                        in case assemble (previousStop st) stationAId (fst fastestPathToB) [] of
                             None \<Rightarrow> None
                           | Some (Inl e) \<Rightarrow> Some (Inl e)
                           | Some (Inr steps) \<Rightarrow>
                               Some (Inr \<lparr>tr_startStationId = stationAId,
                                          tr_endStationId = stationBId,
                                          tr_totalTravelTime = snd fastestPathToB,
                                          tr_steps = rev steps\<rparr>)))))"

subsection \<open>Loading a network from JSON\<close>



















subsection \<open>Networks used as examples\<close>

definition mk_station :: "Id \<Rightarrow> Station" where
  "mk_station s = \<lparr>st_id = s, st_name = s\<rparr>"

definition mk_route :: "Id \<Rightarrow> Id \<Rightarrow> Id list \<Rightarrow> Route" where
  "mk_route r l stops =
     \<lparr>rt_id = r, rt_direction = ''outbound'', rt_lineId = l,
      rt_startStationId = hd stops, rt_endStationId = last stops, rt_stops = stops\<rparr>"

definition add_stations :: "TransportNetwork \<Rightarrow> Id list \<Rightarrow> TransportNetwork" where
  "add_stations n ids = fold (\<lambda>s n'. snd (AddStation n' (mk_station s))) ids n"

definition add_line :: "TransportNetwork \<Rightarrow> Line \<Rightarrow> TransportNetwork" where
  "add_line n line = (case AddLine n line of Inr (ok, n') \<Rightarrow> n' | Inl e \<Rightarrow> n)"

text \<open>Three stations without lines, and the same with one line A, B, C on one route.\<close>

definition three_stations :: TransportNetwork where
  "three_stations = add_stations empty_network [''A'', ''B'', ''C'']"

definition line_L :: Line where
  "line_L = \<lparr>ln_id = ''L'', ln_name = ''Line L'',
              ln_routes = [mk_route ''R'' ''L'' [''A'', ''B'', ''C'']]\<rparr>"

definition line_network :: TransportNetwork where
  "line_network = add_line three_stations line_L"

text \<open>
  The line A, B, C with a second line from A to C: two edges leave A.
\<close>

definition hub_network :: TransportNetwork where
  "hub_network =
     add_line line_network
       \<lparr>ln_id = ''H'', ln_name = ''Line H'', ln_routes = [mk_route ''H1'' ''H'' [''A'', ''C'']]\<rparr>"

text \<open>A line whose first route is valid and whose second route names an unknown station.\<close>

definition line_P :: Line where
  "line_P = \<lparr>ln_id = ''P'', ln_name = ''Line P'',
              ln_routes = [mk_route ''P1'' ''P'' [''A'', ''B''],
                           mk_route ''P2'' ''P'' [''A'', ''Z'']]\<rparr>"

definition three_stations_after_P :: TransportNetwork where
  "three_stations_after_P =
     \<lparr>stations =
        [(''A'', \<lparr>gn_id = ''A'', gn_name = ''A'', gn_passengerCount = 0,
                  gn_edges = [\<lparr>e_addr = 1,
                               e_route = \<lparr>ri_addr = 0, ri_id = ''P1'', ri_line = ''P'',
                                          ri_stops = [''A'', ''B'']\<rparr>,
                               e_nextStop = ''B'', e_travelTime = 0\<rparr>]\<rparr>),
         (''B'', \<lparr>gn_id = ''B'', gn_name = ''B'', gn_passengerCount = 0, gn_edges = []\<rparr>),
         (''C'', \<lparr>gn_id = ''C'', gn_name = ''C'', gn_passengerCount = 0, gn_edges = []\<rparr>)],
      lines = [], next_addr = 2\<rparr>"

definition passenger_events :: "PassengerEvent list" where
  "passenger_events =
     map (\<lambda>ty. \<lparr>ev_stationId = ''A'', ev_type = ty, ev_timestamp = 0\<rparr>)
       [In, Out, Out, In, Out, Out, In, Out]"

subsection \<open>Notions used in the statements\<close>

text \<open>The number of events of one type at one station.\<close>

definition events_at :: "Id \<Rightarrow> PassengerEventType \<Rightarrow> PassengerEvent list \<Rightarrow> nat" where
  "events_at s ty events = length (filter (\<lambda>e. ev_stationId e = s \<and> ev_type e = ty) events)"

text \<open>The routes registered in the lines of the network.\<close>

definition registered_routes :: "TransportNetwork \<Rightarrow> RouteInternal list" where
  "registered_routes n = concat (map (\<lambda>kv. map snd (li_routes (snd kv))) (lines n))"

text \<open>
  The travel time of the edge that \<^verbatim>\<open>FindEdgeForRoute\<close> finds for a route at a stop, and
  whether there is such an edge.
\<close>

definition edge_time :: "TransportNetwork \<Rightarrow> RouteInternal \<Rightarrow> Id \<Rightarrow> 32 word" where
  "edge_time n r s =
     (case GetStation n s of
        None \<Rightarrow> 0
      | Some nd \<Rightarrow> (case FindEdgeForRoute nd r of None \<Rightarrow> 0 | Some e \<Rightarrow> e_travelTime e))"

definition has_route_edge :: "TransportNetwork \<Rightarrow> RouteInternal \<Rightarrow> Id \<Rightarrow> bool" where
  "has_route_edge n r s =
     (case GetStation n s of None \<Rightarrow> False | Some nd \<Rightarrow> FindEdgeForRoute nd r \<noteq> None)"

text \<open>Station \<open>a\<close> comes before station \<open>b\<close> among the stops of a registered route.\<close>

definition appears_before :: "TransportNetwork \<Rightarrow> Id \<Rightarrow> Id \<Rightarrow> Id \<Rightarrow> Id \<Rightarrow> bool" where
  "appears_before n line route a b =
     (case GetRoute n line route of
        None \<Rightarrow> False
      | Some r \<Rightarrow> (\<exists>i j. i < j \<and> j < length (ri_stops r) \<and> ri_stops r ! i = a \<and> ri_stops r ! j = b))"

text \<open>The line A, B, C with the travel times 2 and 3.\<close>

definition timed_network :: TransportNetwork where
  "timed_network =
     snd (SetTravelTime (snd (SetTravelTime line_network ''A'' ''B'' 2)) ''B'' ''C'' 3)"

definition route_R :: RouteInternal where
  "route_R = \<lparr>ri_addr = 0, ri_id = ''R'', ri_line = ''L'', ri_stops = [''A'', ''B'', ''C'']\<rparr>"

text \<open>
  The sum over the naturals of the times of the route's edges at the stops at the
  positions \<open>i, \<dots>, j - 1\<close> of the route.
\<close>

definition hops_time :: "TransportNetwork \<Rightarrow> RouteInternal \<Rightarrow> nat \<Rightarrow> nat \<Rightarrow> nat" where
  "hops_time n r i j =
     sum_list (map (\<lambda>s. unat (edge_time n r s)) (take (j - i) (drop i (ri_stops r))))"

text \<open>
  The line A, B, C with the travel times \<open>2 ^ 32 - 1\<close> and 3.
\<close>

definition wrapped_network :: TransportNetwork where
  "wrapped_network =
     snd (SetTravelTime (snd (SetTravelTime line_network ''A'' ''B'' 4294967295)) ''B'' ''C'' 3)"

text \<open>
  The network without its travel times: what the stations, lines and edges are, whatever
  the times on the edges.
\<close>

definition erase_times :: "GraphNode \<Rightarrow> GraphNode" where
  "erase_times nd = nd\<lparr>gn_edges := map (\<lambda>e. e\<lparr>e_travelTime := 0\<rparr>) (gn_edges nd)\<rparr>"

definition untimed :: "TransportNetwork \<Rightarrow> TransportNetwork" where
  "untimed n = n\<lparr>stations := map (\<lambda>kv. (fst kv, erase_times (snd kv))) (stations n)\<rparr>"

text \<open>
  Two stations of the network with an edge from one to the other: what
  \<^verbatim>\<open>SetTravelTime\<close> needs to return true.
\<close>

definition adjacent :: "TransportNetwork \<Rightarrow> Id \<Rightarrow> Id \<Rightarrow> bool" where
  "adjacent n a b \<longleftrightarrow>
     GetStation n a \<noteq> None \<and> GetStation n b \<noteq> None \<and>
     ((\<exists>e \<in> set (edges_of n a). e_nextStop e = b) \<or>
      (\<exists>e \<in> set (edges_of n b). e_nextStop e = a))"










text \<open>
  A station is reachable from another along the edges of the network: the reflexive
  transitive closure of this relation.
\<close>

definition edge_rel :: "TransportNetwork \<Rightarrow> (Id \<times> Id) set" where
  "edge_rel n = {(x, y). \<exists>e \<in> set (edges_of n x). e_nextStop e = y}"

text \<open>The stop Dijkstra's algorithm starts from, and the locals before the loop.\<close>

definition origin :: "Id \<Rightarrow> PathStop" where
  "origin a = \<lparr>node = a, edge = None\<rparr>"

definition initial :: "Id \<Rightarrow> Dijkstra" where
  "initial a = \<lparr>distFromA = [(origin a, 0)], previousStop = [], nodesToVisit = [(origin a, 0)]\<rparr>"

text \<open>
  The quantities of claim C4: the sum of the travel times of the steps, and the number of
  adjacent steps with different route ids.
\<close>

definition steps_time :: "Step list \<Rightarrow> nat" where
  "steps_time steps = sum_list (map (\<lambda>s. unat (step_travelTime s)) steps)"

fun route_changes :: "Step list \<Rightarrow> nat" where
  "route_changes (x # y # rest) =
     (if step_routeId x \<noteq> step_routeId y then 1 else 0) + route_changes (y # rest)"
| "route_changes [x] = 0"
| "route_changes [] = 0"

text \<open>
  No distance that the search can compute exceeds the range of \<^verbatim>\<open>unsigned int\<close>: a
  recorded path has at most one edge for each edge of the network, and each edge adds at
  most its travel time and the penalty of 5.
\<close>

definition max_travel_time :: "TransportNetwork \<Rightarrow> nat" where
  "max_travel_time n = fold max (map (\<lambda>e. unat (e_travelTime e)) (all_edges n)) 0"

definition no_overflow :: "TransportNetwork \<Rightarrow> bool" where
  "no_overflow n \<longleftrightarrow> (length (all_edges n) + 1) * (max_travel_time n + 5) < 2 ^ 32"

text \<open>
  Routes are compared by pointer in the search and by id in the steps of a
  \<^verbatim>\<open>TravelRoute\<close>. The header asks that a route id be unique across all lines of the
  network; this is that condition, on the routes of the edges.
\<close>

definition route_ids_identify :: "TransportNetwork \<Rightarrow> bool" where
  "route_ids_identify n \<longleftrightarrow>
     (\<forall>e \<in> set (all_edges n). \<forall>e' \<in> set (all_edges n).
        (ri_id (e_route e) = ri_id (e_route e')) = (ri_addr (e_route e) = ri_addr (e_route e')))"

text \<open>
  A network of two lines, R1 over A, X, C, B and R2 over A, Y, X, with a travel time
  between X and C close to the largest \<^verbatim>\<open>unsigned int\<close>; the locals of the search from A
  to B when its loop ends, and the route it returns.
\<close>

definition set_times :: "TransportNetwork \<Rightarrow> (Id \<times> Id \<times> 32 word) list \<Rightarrow> TransportNetwork" where
  "set_times n ts = fold (\<lambda>abt n'. snd (SetTravelTime n' (fst abt) (fst (snd abt)) (snd (snd abt)))) ts n"

definition overflow_network :: TransportNetwork where
  "overflow_network =
     set_times
       (add_line
          (add_line (add_stations empty_network [''A'', ''X'', ''Y'', ''C'', ''B''])
             \<lparr>ln_id = ''L1'', ln_name = ''L1'',
              ln_routes = [mk_route ''R1'' ''L1'' [''A'', ''X'', ''C'', ''B'']]\<rparr>)
          \<lparr>ln_id = ''L2'', ln_name = ''L2'',
           ln_routes = [mk_route ''R2'' ''L2'' [''A'', ''Y'', ''X'']]\<rparr>)
       [(''A'', ''X'', 10), (''A'', ''Y'', 5), (''Y'', ''X'', 6),
        (''X'', ''C'', 4294967283), (''C'', ''B'', 3)]"

definition rR1 :: RouteInternal where
  "rR1 = \<lparr>ri_addr = 0, ri_id = ''R1'', ri_line = ''L1'', ri_stops = [''A'', ''X'', ''C'', ''B'']\<rparr>"
definition rR2 :: RouteInternal where
  "rR2 = \<lparr>ri_addr = 4, ri_id = ''R2'', ri_line = ''L2'', ri_stops = [''A'', ''Y'', ''X'']\<rparr>"

definition e_AX :: GraphEdge where
  "e_AX = \<lparr>e_addr = 1, e_route = rR1, e_nextStop = ''X'', e_travelTime = 10\<rparr>"
definition e_AY :: GraphEdge where
  "e_AY = \<lparr>e_addr = 5, e_route = rR2, e_nextStop = ''Y'', e_travelTime = 5\<rparr>"
definition e_XC :: GraphEdge where
  "e_XC = \<lparr>e_addr = 2, e_route = rR1, e_nextStop = ''C'', e_travelTime = 4294967283\<rparr>"
definition e_YX :: GraphEdge where
  "e_YX = \<lparr>e_addr = 6, e_route = rR2, e_nextStop = ''X'', e_travelTime = 6\<rparr>"
definition e_CB :: GraphEdge where
  "e_CB = \<lparr>e_addr = 3, e_route = rR1, e_nextStop = ''B'', e_travelTime = 3\<rparr>"

definition overflow_final :: Dijkstra where
  "overflow_final =
     \<lparr>distFromA = [(origin ''A'', 0), (neighbor_of e_AX, 10), (neighbor_of e_AY, 5),
                   (neighbor_of e_YX, 11), (neighbor_of e_XC, 3), (neighbor_of e_CB, 0)],
      previousStop = [(neighbor_of e_AX, origin ''A''), (neighbor_of e_AY, origin ''A''),
                      (neighbor_of e_YX, neighbor_of e_AY), (neighbor_of e_XC, neighbor_of e_YX),
                      (neighbor_of e_CB, neighbor_of e_XC)],
      nodesToVisit = []\<rparr>"

definition overflow_route :: TravelRoute where
  "overflow_route =
     \<lparr>tr_startStationId = ''A'', tr_endStationId = ''B'', tr_totalTravelTime = 0,
      tr_steps =
        [\<lparr>step_startStationId = ''A'', step_endStationId = ''Y'', step_lineId = ''L2'',
          step_routeId = ''R2'', step_travelTime = 5\<rparr>,
         \<lparr>step_startStationId = ''Y'', step_endStationId = ''X'', step_lineId = ''L2'',
          step_routeId = ''R2'', step_travelTime = 6\<rparr>,
         \<lparr>step_startStationId = ''X'', step_endStationId = ''C'', step_lineId = ''L1'',
          step_routeId = ''R1'', step_travelTime = 4294967283\<rparr>,
         \<lparr>step_startStationId = ''C'', step_endStationId = ''B'', step_lineId = ''L1'',
          step_routeId = ''R1'', step_travelTime = 3\<rparr>]\<rparr>"

text \<open>
  A network where the direct route from A to B takes 10 and the way over X takes 2 + 2
  on two other routes; the locals of the search when its loop ends, and the route it
  returns.
\<close>

definition transfer_network :: TransportNetwork where
  "transfer_network =
     set_times
       (add_line
          (add_line
             (add_line (add_stations empty_network [''A'', ''X'', ''B''])
                \<lparr>ln_id = ''L1'', ln_name = ''L1'',
                 ln_routes = [mk_route ''R1'' ''L1'' [''A'', ''B'']]\<rparr>)
             \<lparr>ln_id = ''L2'', ln_name = ''L2'',
              ln_routes = [mk_route ''R2'' ''L2'' [''A'', ''X'']]\<rparr>)
          \<lparr>ln_id = ''L3'', ln_name = ''L3'',
           ln_routes = [mk_route ''R3'' ''L3'' [''X'', ''B'']]\<rparr>)
       [(''A'', ''B'', 10), (''A'', ''X'', 2), (''X'', ''B'', 2)]"

definition t_AB :: GraphEdge where
  "t_AB = \<lparr>e_addr = 1,
            e_route = \<lparr>ri_addr = 0, ri_id = ''R1'', ri_line = ''L1'', ri_stops = [''A'', ''B'']\<rparr>,
            e_nextStop = ''B'', e_travelTime = 10\<rparr>"
definition t_AX :: GraphEdge where
  "t_AX = \<lparr>e_addr = 3,
            e_route = \<lparr>ri_addr = 2, ri_id = ''R2'', ri_line = ''L2'', ri_stops = [''A'', ''X'']\<rparr>,
            e_nextStop = ''X'', e_travelTime = 2\<rparr>"
definition t_XB :: GraphEdge where
  "t_XB = \<lparr>e_addr = 5,
            e_route = \<lparr>ri_addr = 4, ri_id = ''R3'', ri_line = ''L3'', ri_stops = [''X'', ''B'']\<rparr>,
            e_nextStop = ''B'', e_travelTime = 2\<rparr>"

definition transfer_final :: Dijkstra where
  "transfer_final =
     \<lparr>distFromA = [(origin ''A'', 0), (neighbor_of t_AB, 10), (neighbor_of t_AX, 2),
                   (neighbor_of t_XB, 9)],
      previousStop = [(neighbor_of t_AB, origin ''A''), (neighbor_of t_AX, origin ''A''),
                      (neighbor_of t_XB, neighbor_of t_AX)],
      nodesToVisit = []\<rparr>"

definition transfer_route :: TravelRoute where
  "transfer_route =
     \<lparr>tr_startStationId = ''A'', tr_endStationId = ''B'', tr_totalTravelTime = 9,
      tr_steps =
        [\<lparr>step_startStationId = ''A'', step_endStationId = ''X'', step_lineId = ''L2'',
          step_routeId = ''R2'', step_travelTime = 2\<rparr>,
         \<lparr>step_startStationId = ''X'', step_endStationId = ''B'', step_lineId = ''L3'',
          step_routeId = ''R3'', step_travelTime = 2\<rparr>]\<rparr>"

subsection \<open>The quiet route\<close>























section \<open>Properties\<close>

subsection \<open>Evaluation of the examples\<close>

lemmas build_defs =
  mk_station_def mk_route_def add_stations_def add_line_def empty_network_def
  AddStation_def GetStation_def GetLine_def AddLine_def AddRouteToLine_def modify_node_def
  Let_def

lemma three_stations_eq:
  "three_stations =
     \<lparr>stations =
        [(''A'', \<lparr>gn_id = ''A'', gn_name = ''A'', gn_passengerCount = 0, gn_edges = []\<rparr>),
         (''B'', \<lparr>gn_id = ''B'', gn_name = ''B'', gn_passengerCount = 0, gn_edges = []\<rparr>),
         (''C'', \<lparr>gn_id = ''C'', gn_name = ''C'', gn_passengerCount = 0, gn_edges = []\<rparr>)],
      lines = [], next_addr = 0\<rparr>"
  by (simp add: three_stations_def build_defs)

lemma line_network_eq:
  "line_network =
     \<lparr>stations =
        [(''A'', \<lparr>gn_id = ''A'', gn_name = ''A'', gn_passengerCount = 0,
                  gn_edges = [\<lparr>e_addr = 1,
                               e_route = \<lparr>ri_addr = 0, ri_id = ''R'', ri_line = ''L'',
                                          ri_stops = [''A'', ''B'', ''C'']\<rparr>,
                               e_nextStop = ''B'', e_travelTime = 0\<rparr>]\<rparr>),
         (''B'', \<lparr>gn_id = ''B'', gn_name = ''B'', gn_passengerCount = 0,
                  gn_edges = [\<lparr>e_addr = 2,
                               e_route = \<lparr>ri_addr = 0, ri_id = ''R'', ri_line = ''L'',
                                          ri_stops = [''A'', ''B'', ''C'']\<rparr>,
                               e_nextStop = ''C'', e_travelTime = 0\<rparr>]\<rparr>),
         (''C'', \<lparr>gn_id = ''C'', gn_name = ''C'', gn_passengerCount = 0, gn_edges = []\<rparr>)],
      lines =
        [(''L'', \<lparr>li_id = ''L'', li_name = ''Line L'',
                  li_routes = [(''R'', \<lparr>ri_addr = 0, ri_id = ''R'', ri_line = ''L'',
                                         ri_stops = [''A'', ''B'', ''C'']\<rparr>)]\<rparr>)],
      next_addr = 3\<rparr>"
  by (simp add: line_network_def three_stations_eq line_L_def build_defs)

subsection \<open>Nodes and their edges\<close>

lemma GetStation_modify_node:
  "GetStation (modify_node k f n) x = (if x = k then map_option f (GetStation n k) else GetStation n x)"
  by (auto simp: GetStation_def modify_node_def map_of_map_entry split: option.splits)

lemma edges_of_modify_node:
  "edges_of (modify_node k f n) x = (if x = k then (case GetStation n k of None \<Rightarrow> [] | Some nd \<Rightarrow> gn_edges (f nd)) else edges_of n x)"
  by (auto simp: edges_of_def GetStation_modify_node split: option.splits)

lemma GetStation_modify_node_None [simp]:
  "GetStation (modify_node k f n) x = None \<longleftrightarrow> GetStation n x = None"
  by (simp add: GetStation_modify_node)

lemma GetStation_edges_of:
  "GetStation n x \<noteq> None \<Longrightarrow> \<exists>nd. GetStation n x = Some nd \<and> gn_edges nd = edges_of n x"
  by (auto simp: edges_of_def)

lemma setTravelTime_idem:
  "setTravelTime b t (setTravelTime b t es) = setTravelTime b t es"
  by (induction es) (auto simp: setTravelTime_def)

lemma setTravelTime_set:
  "e \<in> set (setTravelTime b t es) \<Longrightarrow> e_nextStop e = b \<Longrightarrow> e_travelTime e = t"
proof (induction es)
  case Nil
  then show ?case by (simp add: setTravelTime_def)
next
  case (Cons x xs)
  have unfold: "setTravelTime b t (x # xs) =
      (if e_nextStop x = b then x\<lparr>e_travelTime := t\<rparr> else x) # setTravelTime b t xs"
    by (simp add: setTravelTime_def)
  from Cons.prems(1) have "e = (if e_nextStop x = b then x\<lparr>e_travelTime := t\<rparr> else x) \<or> e \<in> set (setTravelTime b t xs)"
    unfolding unfold by simp
  then show ?case
  proof
    assume e: "e = (if e_nextStop x = b then x\<lparr>e_travelTime := t\<rparr> else x)"
    show ?thesis
    proof (cases "e_nextStop x = b")
      case True with e show ?thesis by simp
    next
      case False with e Cons.prems(2) show ?thesis by simp
    qed
  next
    assume "e \<in> set (setTravelTime b t xs)"
    with Cons show ?thesis by blast
  qed
qed

lemma setTravelTime_nextStop:
  "(\<exists>e \<in> set (setTravelTime x t es). e_nextStop e = y) \<longleftrightarrow> (\<exists>e \<in> set es. e_nextStop e = y)"
  by (induction es) (simp_all add: setTravelTime_def)

lemma find_Some_D: "find P xs = Some x \<Longrightarrow> x \<in> set xs \<and> P x"
  by (induction xs) (auto split: if_splits)

lemma find_None_iff': "find P xs = None \<longleftrightarrow> (\<forall>x\<in>set xs. \<not> P x)"
  by (induction xs) auto

lemma GetTravelTime_all:
  assumes nx: "GetStation n x = Some nx" and ny: "GetStation n y = Some ny"
    and all1: "\<forall>e \<in> set (gn_edges nx). e_nextStop e = y \<longrightarrow> e_travelTime e = t"
    and all2: "\<forall>e \<in> set (gn_edges ny). e_nextStop e = x \<longrightarrow> e_travelTime e = t"
    and ex: "(\<exists>e \<in> set (gn_edges nx). e_nextStop e = y) \<or> (\<exists>e \<in> set (gn_edges ny). e_nextStop e = x)"
  shows "GetTravelTime n x y = t"
proof (cases "find (\<lambda>e. e_nextStop e = y) (gn_edges nx)")
  case (Some e)
  then have "e \<in> set (gn_edges nx)" "e_nextStop e = y"
    by (auto dest: find_Some_D)
  with all1 Some nx ny show ?thesis by (simp add: GetTravelTime_def)
next
  case None
  then have no: "\<forall>e \<in> set (gn_edges nx). e_nextStop e \<noteq> y" by (simp add: find_None_iff')
  with ex obtain e where e: "e \<in> set (gn_edges ny)" "e_nextStop e = x" by auto
  then obtain e' where f: "find (\<lambda>e. e_nextStop e = x) (gn_edges ny) = Some e'"
    by (cases "find (\<lambda>e. e_nextStop e = x) (gn_edges ny)") (auto simp: find_None_iff')
  then have "e' \<in> set (gn_edges ny)" "e_nextStop e' = x"
    by (auto dest: find_Some_D)
  with all2 None f nx ny show ?thesis by (simp add: GetTravelTime_def)
qed

subsection \<open>AddLine\<close>

text \<open>
  Claim C1 (atomicity of \<^verbatim>\<open>AddLine\<close>), evaluated at a line whose second route fails:
  \<^verbatim>\<open>AddLine\<close> returns false and registers no line, but the edge of the first route
  stays in station A, where \<^verbatim>\<open>GetRoutesServingStation\<close> reports it.
\<close>

theorem AddLine_failure_keeps_edges:
  "AddLine three_stations line_P = Inr (False, three_stations_after_P) \<and>
   three_stations_after_P \<noteq> three_stations \<and>
   GetLine three_stations_after_P ''P'' = None \<and>
   GetRoutesServingStation three_stations ''A'' = Inr [] \<and>
   GetRoutesServingStation three_stations_after_P ''A'' = Inr [''P1'']"
  by (simp add: three_stations_eq three_stations_after_P_def line_P_def build_defs
        GetRoutesServingStation_def)

subsection \<open>Travel times between adjacent stations\<close>

text \<open>
  Claim C5: when \<^verbatim>\<open>SetTravelTime(A, B, t)\<close> returns true, every edge from A to B and
  every edge from B to A carries \<open>t\<close> afterwards, \<^verbatim>\<open>GetTravelTime\<close> returns \<open>t\<close> in both
  directions, and there was an edge between A and B in one direction.
\<close>

theorem SetTravelTime_symmetric:
  assumes "SetTravelTime n a b t = (True, n')"
  shows "(\<forall>e \<in> set (edges_of n' a). e_nextStop e = b \<longrightarrow> e_travelTime e = t) \<and>
         (\<forall>e \<in> set (edges_of n' b). e_nextStop e = a \<longrightarrow> e_travelTime e = t) \<and>
         GetTravelTime n' a b = t \<and> GetTravelTime n' b a = t \<and>
         ((\<exists>e \<in> set (edges_of n a). e_nextStop e = b) \<or> (\<exists>e \<in> set (edges_of n b). e_nextStop e = a))"
proof -
  from assms obtain na nb where na: "GetStation n a = Some na" and nb: "GetStation n b = Some nb"
    by (auto simp: SetTravelTime_def split: option.splits)
  let ?n1 = "modify_node a (\<lambda>nd. nd\<lparr>gn_edges := setTravelTime b t (gn_edges nd)\<rparr>) n"
  have n': "n' = modify_node b (\<lambda>nd. nd\<lparr>gn_edges := setTravelTime a t (gn_edges nd)\<rparr>) ?n1"
    and found: "(\<exists>e \<in> set (gn_edges na). e_nextStop e = b) \<or> (\<exists>e \<in> set (gn_edges nb). e_nextStop e = a)"
    using assms na nb by (auto simp: SetTravelTime_def Let_def)
  have ea: "edges_of n' a = (if a = b then setTravelTime a t (gn_edges na) else setTravelTime b t (gn_edges na))"
    using na nb by (auto simp: n' edges_of_modify_node GetStation_modify_node setTravelTime_idem)
  have eb: "edges_of n' b = setTravelTime a t (gn_edges nb)"
    using na nb by (auto simp: n' edges_of_modify_node GetStation_modify_node setTravelTime_idem edges_of_def)
  have 1: "\<forall>e \<in> set (edges_of n' a). e_nextStop e = b \<longrightarrow> e_travelTime e = t"
    using ea by (auto dest: setTravelTime_set)
  have 2: "\<forall>e \<in> set (edges_of n' b). e_nextStop e = a \<longrightarrow> e_travelTime e = t"
    using eb by (auto dest: setTravelTime_set)
  have "GetStation n' a \<noteq> None" "GetStation n' b \<noteq> None"
    using na nb by (simp_all add: n')
  then obtain na' nb' where na': "GetStation n' a = Some na'" "gn_edges na' = edges_of n' a"
      and nb': "GetStation n' b = Some nb'" "gn_edges nb' = edges_of n' b"
    using GetStation_edges_of[of n' a] GetStation_edges_of[of n' b] by blast
  have ex': "(\<exists>e \<in> set (edges_of n' a). e_nextStop e = b) \<or> (\<exists>e \<in> set (edges_of n' b). e_nextStop e = a)"
    using found unfolding ea eb by (auto simp add: setTravelTime_nextStop)
  have gab: "GetTravelTime n' a b = t"
    using GetTravelTime_all[OF na'(1) nb'(1)] 1 2 ex' by (simp add: na'(2) nb'(2))
  have gba: "GetTravelTime n' b a = t"
    using GetTravelTime_all[OF nb'(1) na'(1)] 1 2 ex' by (auto simp add: na'(2) nb'(2))
  have 5: "(\<exists>e \<in> set (edges_of n a). e_nextStop e = b) \<or> (\<exists>e \<in> set (edges_of n b). e_nextStop e = a)"
    using found na nb by (simp add: edges_of_def)
  show ?thesis by (intro conjI) (fact 1 2 gab gba 5)+
qed

theorem SetTravelTime_symmetric_witness:
  "SetTravelTime line_network ''A'' ''B'' 7 =
     (True, snd (SetTravelTime line_network ''A'' ''B'' 7)) \<and>
   GetTravelTime (snd (SetTravelTime line_network ''A'' ''B'' 7)) ''A'' ''B'' = 7 \<and>
   GetTravelTime (snd (SetTravelTime line_network ''A'' ''B'' 7)) ''B'' ''A'' = 7"
proof -
  have h: "SetTravelTime line_network ''A'' ''B'' 7 =
             (True, snd (SetTravelTime line_network ''A'' ''B'' 7))"
    by (simp add: line_network_eq SetTravelTime_def GetStation_def modify_node_def)
  from SetTravelTime_symmetric[OF h] h show ?thesis by simp
qed

subsection \<open>Passenger counts\<close>

lemma events_at_Cons:
  "events_at s ty (e # es) = (if ev_stationId e = s \<and> ev_type e = ty then 1 else 0) + events_at s ty es"
  by (simp add: events_at_def)

lemma events_at_Nil [simp]: "events_at s ty [] = 0"
  by (simp add: events_at_def)

lemma count_RecordPassengerEvent:
  assumes "GetStation n s = Some nd"
  shows "\<exists>nd'. GetStation (snd (RecordPassengerEvent n ev)) s = Some nd' \<and>
           gn_passengerCount nd' = gn_passengerCount nd
             + (if ev_stationId ev = s \<and> ev_type ev = In then 1 else 0)
             - (if ev_stationId ev = s \<and> ev_type ev = Out then 1 else 0)"
proof (cases "GetStation n (ev_stationId ev)")
  case None
  then have "ev_stationId ev \<noteq> s" using assms by auto
  with None assms show ?thesis by (simp add: RecordPassengerEvent_def)
next
  case (Some x)
  show ?thesis
  proof (cases "ev_stationId ev = s")
    case True
    with assms show ?thesis
      by (cases "ev_type ev") (simp_all add: RecordPassengerEvent_def GetStation_modify_node)
  next
    case False
    with assms Some show ?thesis
      by (cases "ev_type ev") (simp_all add: RecordPassengerEvent_def GetStation_modify_node)
  qed
qed

lemma count_record_events:
  "GetStation n s = Some nd \<Longrightarrow>
     \<exists>nd'. GetStation (record_events n events) s = Some nd' \<and>
       gn_passengerCount nd' =
         gn_passengerCount nd + of_nat (events_at s In events) - of_nat (events_at s Out events)"
proof (induction events arbitrary: n nd)
  case Nil
  then show ?case by (simp add: record_events_def)
next
  case (Cons ev events)
  from count_RecordPassengerEvent[OF Cons.prems, of ev] obtain nd1 where
    1: "GetStation (snd (RecordPassengerEvent n ev)) s = Some nd1"
    and c1: "gn_passengerCount nd1 = gn_passengerCount nd
             + (if ev_stationId ev = s \<and> ev_type ev = In then 1 else 0)
             - (if ev_stationId ev = s \<and> ev_type ev = Out then 1 else 0)" by blast
  from Cons.IH[OF 1] obtain nd' where
    2: "GetStation (record_events (snd (RecordPassengerEvent n ev)) events) s = Some nd'"
    and c2: "gn_passengerCount nd' =
         gn_passengerCount nd1 + of_nat (events_at s In events) - of_nat (events_at s Out events)"
    by blast
  have r: "record_events n (ev # events) = record_events (snd (RecordPassengerEvent n ev)) events"
    by (simp add: record_events_def)
  show ?case unfolding r using 2 c1 c2 by (simp add: events_at_Cons)
qed

lemma sint_word_of_int_64:
  "- (2 ^ 63) \<le> k \<Longrightarrow> k < 2 ^ 63 \<Longrightarrow> sint (word_of_int k :: 64 word) = k"
  by (simp add: signed_of_int signed_take_bit_int_eq_self)

lemma sint_diff_of_nat:
  assumes "N + M < 2 ^ 63"
  shows "sint (of_nat N - of_nat M :: 64 word) = int N - int M"
proof -
  have eq: "(of_nat N - of_nat M :: 64 word) = word_of_int (int N - int M)" by simp
  have "int (N + M) < 2 ^ 63" using assms by simp
  then have "- (2 ^ 63) \<le> int N - int M" "int N - int M < 2 ^ 63"
    by simp_all
  then show ?thesis unfolding eq by (rule sint_word_of_int_64)
qed

text \<open>
  Claim C8: for a station of the network whose passenger count is 0 (as it is when the
  station is added), after any sequence of calls of \<^verbatim>\<open>RecordPassengerEvent\<close>, N of them
  with type In at that station and M with type Out at that station,
  \<^verbatim>\<open>GetPassengerCount\<close> returns N - M as a signed value. The counter is a
  \<^verbatim>\<open>long long int\<close>; fewer than \<open>2 ^ 63\<close> events keep it in range.
\<close>

theorem passenger_count_In_minus_Out:
  assumes "GetPassengerCount n s = Inr 0"
    and "events_at s In events + events_at s Out events < 2 ^ 63"
  shows "\<exists>c. GetPassengerCount (record_events n events) s = Inr c \<and>
             sint c = int (events_at s In events) - int (events_at s Out events)"
proof -
  from assms(1) obtain nd where
    nd: "GetStation n s = Some nd" "gn_passengerCount nd = 0"
    by (auto simp: GetPassengerCount_def split: option.splits)
  from count_record_events[OF nd(1), of events] obtain nd' where
    nd': "GetStation (record_events n events) s = Some nd'"
      "gn_passengerCount nd' = gn_passengerCount nd
         + of_nat (events_at s In events) - of_nat (events_at s Out events)" by blast
  have "sint (gn_passengerCount nd') = int (events_at s In events) - int (events_at s Out events)"
    using sint_diff_of_nat[OF assms(2)] nd'(2) nd(2) by simp
  then show ?thesis using nd'(1) by (simp add: GetPassengerCount_def)
qed

text \<open>
  At station A of a network in which two edges leave A: three events In and five events
  Out give the count -2.
\<close>

theorem passenger_count_In_minus_Out_witness:
  "GetPassengerCount hub_network ''A'' = Inr 0 \<and>
   length (edges_of hub_network ''A'') = 2 \<and>
   events_at ''A'' In passenger_events + events_at ''A'' Out passenger_events < 2 ^ 63 \<and>
   (\<exists>c. GetPassengerCount (record_events hub_network passenger_events) ''A'' = Inr c \<and>
        sint c = - 2)"
proof -
  have h1: "GetPassengerCount hub_network ''A'' = Inr 0"
    by (simp add: hub_network_def line_network_eq build_defs GetPassengerCount_def GetStation_def)
  have e: "length (edges_of hub_network ''A'') = 2"
    by (simp add: hub_network_def line_network_eq build_defs edges_of_def GetStation_def)
  have i: "events_at ''A'' In passenger_events = 3"
    and o: "events_at ''A'' Out passenger_events = 5"
    by (simp_all add: events_at_def passenger_events_def)
  have h2: "events_at ''A'' In passenger_events + events_at ''A'' Out passenger_events < 2 ^ 63"
    by (simp add: i o)
  from passenger_count_In_minus_Out[OF h1 h2] h1 e i o show ?thesis
    by simp
qed

subsection \<open>Routes serving a station\<close>

lemma end_stop_routes_eq:
  assumes "\<forall>r \<in> set (map snd rs). ri_stops r \<noteq> []"
  shows "end_stop_routes s rs = Inr (map ri_id (filter (\<lambda>r. s = last (ri_stops r)) (map snd rs)))"
  using assms by (induction rs) auto

lemma end_stop_lines_eq:
  assumes "\<forall>kv \<in> set ls. \<forall>r \<in> set (map snd (li_routes (snd kv))). ri_stops r \<noteq> []"
  shows "end_stop_lines s ls =
           Inr (map ri_id (filter (\<lambda>r. s = last (ri_stops r))
                  (concat (map (\<lambda>kv. map snd (li_routes (snd kv))) ls))))"
  using assms
proof (induction ls)
  case Nil then show ?case by simp
next
  case (Cons kv ls)
  obtain k line where kv: "kv = (k, line)" by (cases kv)
  have 1: "end_stop_routes s (li_routes line) =
       Inr (map ri_id (filter (\<lambda>r. s = last (ri_stops r)) (map snd (li_routes line))))"
    using Cons.prems by (intro end_stop_routes_eq) (simp add: kv)
  have 2: "end_stop_lines s ls =
           Inr (map ri_id (filter (\<lambda>r. s = last (ri_stops r))
                  (concat (map (\<lambda>kv. map snd (li_routes (snd kv))) ls))))"
    using Cons.prems by (intro Cons.IH) simp
  show ?case by (simp add: kv 1 2)
qed

text \<open>
  Claim C9: for a station of the network, \<^verbatim>\<open>GetRoutesServingStation\<close> returns the ids of
  the routes of the edges leaving the station together with the ids of the registered
  routes whose last stop is the station. (Every registered route has a stop: a route
  without stops cannot be added.)
\<close>

theorem routes_serving_station:
  assumes "GetStation n s = Some nd"
    and "\<forall>r \<in> set (registered_routes n). ri_stops r \<noteq> []"
  shows "\<exists>routes. GetRoutesServingStation n s = Inr routes \<and>
           set routes = {ri_id (e_route e) | e. e \<in> set (gn_edges nd)} \<union>
                        {ri_id r | r. r \<in> set (registered_routes n) \<and> last (ri_stops r) = s}"
proof -
  have "end_stop_lines s (lines n) =
          Inr (map ri_id (filter (\<lambda>r. s = last (ri_stops r)) (registered_routes n)))"
    unfolding registered_routes_def using assms(2)
    by (intro end_stop_lines_eq) (auto simp: registered_routes_def)
  then show ?thesis using assms(1)
    by (auto simp: GetRoutesServingStation_def)
qed


theorem routes_serving_station_witness:
  "GetStation line_network ''C'' \<noteq> None \<and>
   map ri_stops (registered_routes line_network) = [[''A'', ''B'', ''C'']] \<and>
   edges_of line_network ''C'' = [] \<and>
   (\<exists>routes. GetRoutesServingStation line_network ''C'' = Inr routes \<and> set routes = {''R''})"
proof -
  obtain nd where h1: "GetStation line_network ''C'' = Some nd" and e: "gn_edges nd = []"
    by (simp add: line_network_eq GetStation_def)
  have h2: "\<forall>r \<in> set (registered_routes line_network). ri_stops r \<noteq> []"
    by (simp add: line_network_eq registered_routes_def)
  have r: "{ri_id r | r. r \<in> set (registered_routes line_network) \<and> last (ri_stops r) = ''C''}
           = {''R''}"
    by (auto simp: line_network_eq registered_routes_def)
  have h3: "map ri_stops (registered_routes line_network) = [[''A'', ''B'', ''C'']]"
    by (simp add: line_network_eq registered_routes_def)
  from routes_serving_station[OF h1 h2] h1 h3 e r show ?thesis
    by (simp add: edges_of_def)
qed

subsection \<open>The fastest travel route\<close>

text \<open>
  Claim C6: for a station A of the network, \<^verbatim>\<open>GetFastestTravelRoute(A, A)\<close> returns a
  route with total travel time 0 and the single step from A to A with empty line id,
  empty route id and travel time 0.
\<close>

theorem fastest_same_station:
  assumes "GetStation n a \<noteq> None"
  shows "GetFastestTravelRoute n a a =
           Some (Inr \<lparr>tr_startStationId = a, tr_endStationId = a, tr_totalTravelTime = 0,
                      tr_steps = [\<lparr>step_startStationId = a, step_endStationId = a,
                                   step_lineId = [], step_routeId = [], step_travelTime = 0\<rparr>]\<rparr>)"
proof -
  from assms obtain nd where "GetStation n a = Some nd" by auto
  then show ?thesis by (simp add: GetFastestTravelRoute_def)
qed


theorem fastest_same_station_witness:
  "GetStation line_network ''B'' \<noteq> None \<and>
   GetFastestTravelRoute line_network ''B'' ''B'' =
     Some (Inr \<lparr>tr_startStationId = ''B'', tr_endStationId = ''B'', tr_totalTravelTime = 0,
                tr_steps = [\<lparr>step_startStationId = ''B'', step_endStationId = ''B'',
                             step_lineId = [], step_routeId = [], step_travelTime = 0\<rparr>]\<rparr>)"
proof -
  have h: "GetStation line_network ''B'' \<noteq> None"
    by (simp add: line_network_eq GetStation_def)
  from fastest_same_station[OF h] h show ?thesis by simp
qed

subsection \<open>Travel times along a route\<close>

lemma timed_network_eq:
  "timed_network =
     \<lparr>stations =
        [(''A'', \<lparr>gn_id = ''A'', gn_name = ''A'', gn_passengerCount = 0,
                  gn_edges = [\<lparr>e_addr = 1, e_route = route_R,
                               e_nextStop = ''B'', e_travelTime = 2\<rparr>]\<rparr>),
         (''B'', \<lparr>gn_id = ''B'', gn_name = ''B'', gn_passengerCount = 0,
                  gn_edges = [\<lparr>e_addr = 2, e_route = route_R,
                               e_nextStop = ''C'', e_travelTime = 3\<rparr>]\<rparr>),
         (''C'', \<lparr>gn_id = ''C'', gn_name = ''C'', gn_passengerCount = 0, gn_edges = []\<rparr>)],
      lines = [(''L'', \<lparr>li_id = ''L'', li_name = ''Line L'', li_routes = [(''R'', route_R)]\<rparr>)],
      next_addr = 3\<rparr>"
  by (simp add: timed_network_def line_network_eq route_R_def SetTravelTime_def GetStation_def
        modify_node_def setTravelTime_def)

lemma walk_route_found:
  assumes "b \<notin> set pre" and "\<forall>s \<in> set pre. has_route_edge n r s"
  shows "walk_route n r a b t True (pre @ b # rest) = t + sum_list (map (edge_time n r) pre)"
  using assms
proof (induction pre arbitrary: t)
  case Nil
  then show ?case by simp
next
  case (Cons s pre)
  from Cons.prems have sb: "s \<noteq> b" and he: "has_route_edge n r s" by auto
  from he obtain nd e where nd: "GetStation n s = Some nd" and e: "FindEdgeForRoute nd r = Some e"
    by (auto simp: has_route_edge_def split: option.splits)
  have et: "edge_time n r s = e_travelTime e" by (simp add: edge_time_def nd e)
  have "walk_route n r a b t True ((s # pre) @ b # rest) =
        walk_route n r a b (t + e_travelTime e) True (pre @ b # rest)"
    using sb nd e by simp
  also have "\<dots> = t + e_travelTime e + sum_list (map (edge_time n r) pre)"
    using Cons.prems by (intro Cons.IH) auto
  finally show ?case by (simp add: et add.assoc)
qed

lemma walk_route_skip:
  assumes "a \<notin> set pre" and "b \<notin> set pre"
  shows "walk_route n r a b t False (pre @ xs) = walk_route n r a b t False xs"
  using assms by (induction pre) auto

lemma walk_route_at_A:
  "walk_route n r a b t False (a # xs) = walk_route n r a b t True (a # xs)"
  by simp

lemma walk_route_no_B:
  "b \<notin> set xs \<Longrightarrow> walk_route n r a b t f xs = 0"
  by (induction xs arbitrary: t f) (auto simp: Let_def split: option.splits)

lemma walk_route_zero:
  assumes "a = b \<or> \<not> (\<exists>i j. i < j \<and> j < length xs \<and> xs ! i = a \<and> xs ! j = b)"
  shows "walk_route n r a b 0 False xs = 0"
proof (cases "b \<in> set xs")
  case False
  then show ?thesis by (rule walk_route_no_B)
next
  case True
  then obtain pre rest where xs: "xs = pre @ b # rest" and b: "b \<notin> set pre"
    by (auto dest: split_list_first)
  have a: "a \<notin> set pre"
  proof
    assume "a \<in> set pre"
    then obtain i where i: "i < length pre" "pre ! i = a" by (auto simp: in_set_conv_nth)
    then have "i < length pre \<and> length pre < length xs \<and> xs ! i = a \<and> xs ! length pre = b"
      by (simp add: xs nth_append)
    moreover have "a \<noteq> b" using \<open>a \<in> set pre\<close> b by auto
    ultimately show False using assms by blast
  qed
  have "walk_route n r a b 0 False xs = walk_route n r a b 0 False (b # rest)"
    unfolding xs using a b by (rule walk_route_skip)
  also have "\<dots> = 0" by simp
  finally show ?thesis .
qed

lemma walk_route_sum:
  assumes d: "distinct xs" and ij: "i < j" "j < length xs"
    and he: "\<forall>s \<in> set (butlast xs). has_route_edge n r s"
  shows "walk_route n r (xs ! i) (xs ! j) 0 False xs =
           sum_list (map (edge_time n r) (take (j - i) (drop i xs)))"
proof -
  let ?a = "xs ! i" and ?b = "xs ! j"
  let ?pre = "take i xs" and ?mid = "take (j - i) (drop i xs)" and ?rest = "drop (Suc j) xs"
  have xs: "xs = ?pre @ ?mid @ ?b # ?rest"
  proof -
    have "drop i xs = take (j - i) (drop i xs) @ drop (j - i) (drop i xs)"
      by (rule append_take_drop_id[symmetric])
    also have "drop (j - i) (drop i xs) = drop j xs" using ij by simp
    also have "drop j xs = ?b # ?rest" using ij by (simp add: Cons_nth_drop_Suc)
    finally have "drop i xs = ?mid @ ?b # ?rest" .
    then show ?thesis by (metis append_take_drop_id)
  qed
  have mid: "?mid = ?a # tl ?mid"
  proof -
    have "drop i xs = xs ! i # drop (Suc i) xs" using ij by (simp add: Cons_nth_drop_Suc)
    moreover obtain k where "j - i = Suc k" using ij by (cases "j - i") auto
    ultimately show ?thesis by simp
  qed
  have dist: "distinct (?pre @ ?mid @ ?b # ?rest)" using d xs by simp
  have a_pre: "?a \<notin> set ?pre"
  proof -
    have "?a \<in> set ?mid" by (subst mid) simp
    with dist show ?thesis by auto
  qed
  have b_pre: "?b \<notin> set ?pre" using dist by auto
  have b_mid: "?b \<notin> set ?mid" using dist by auto
  have "set ?mid \<subseteq> set (butlast xs)"
  proof -
    have "butlast xs = ?pre @ butlast (?mid @ ?b # ?rest)"
      by (subst xs) (simp add: butlast_append)
    also have "butlast (?mid @ ?b # ?rest) = ?mid @ butlast (?b # ?rest)"
      by (simp add: butlast_append)
    finally show ?thesis by auto
  qed
  with he have he_mid: "\<forall>s \<in> set ?mid. has_route_edge n r s" by auto
  have "walk_route n r ?a ?b 0 False xs = walk_route n r ?a ?b 0 False (?pre @ (?mid @ ?b # ?rest))"
    using xs by simp
  also have "\<dots> = walk_route n r ?a ?b 0 False (?mid @ ?b # ?rest)"
    using a_pre b_pre by (rule walk_route_skip)
  also have "\<dots> = walk_route n r ?a ?b 0 True (?mid @ ?b # ?rest)"
    by (subst (1 2) mid) simp
  also have "\<dots> = 0 + sum_list (map (edge_time n r) ?mid)"
    using b_mid he_mid by (rule walk_route_found)
  finally show ?thesis by simp
qed

lemma unat_sum_list_32:
  "unat (sum_list (map f xs) :: 32 word) = sum_list (map (\<lambda>x. unat (f x)) xs) mod 2 ^ 32"
proof -
  have "(sum_list (map f xs) :: 32 word) = of_nat (sum_list (map (\<lambda>x. unat (f x)) xs))"
    by (induction xs) simp_all
  then show ?thesis by (simp add: unat_of_nat)
qed

text \<open>
  Claim C7 as stated fails when the sum leaves the range of \<^verbatim>\<open>unsigned int\<close>: on the line
  A, B, C with the travel times \<open>2 ^ 32 - 1\<close> and 3 the hop times from A to C add up to
  \<open>2 ^ 32 + 2\<close>, and the four-argument \<^verbatim>\<open>GetTravelTime\<close> returns 2.
\<close>

theorem GetTravelTimeOnRoute_sum_wraps:
  "GetRoute wrapped_network ''L'' ''R'' = Some route_R \<and>
   ri_stops route_R = [''A'', ''B'', ''C''] \<and>
   unat (edge_time wrapped_network route_R ''A'') = 4294967295 \<and>
   unat (edge_time wrapped_network route_R ''B'') = 3 \<and>
   hops_time wrapped_network route_R 0 2 = 4294967298 \<and>
   unat (GetTravelTimeOnRoute wrapped_network ''L'' ''R'' ''A'' ''C'') = 2"
  by (simp add: wrapped_network_def line_network_eq route_R_def SetTravelTime_def
        GetStation_def modify_node_def setTravelTime_def GetRoute_def GetLine_def edge_time_def
        FindEdgeForRoute_def hops_time_def GetTravelTimeOnRoute_def)

text \<open>
  Claim C7, amended: for a registered route with distinct stops, all of them stations,
  each but the last with an edge of the route, the four-argument \<^verbatim>\<open>GetTravelTime\<close> from
  the stop at position \<open>i\<close> to the stop at a later position \<open>j\<close> is the sum of the times
  of the route's edges at the stops \<open>i, \<dots>, j - 1\<close> modulo \<open>2 ^ 32\<close>, hence that sum
  itself when it is below \<open>2 ^ 32\<close>; for consecutive stops it is the time of the route's
  edge at the first of them. For every route and pair of stations it is 0 when the two
  stations are the same or the first does not come before the second on the route (in
  particular when one of them is not on the route).
\<close>

theorem GetTravelTimeOnRoute_sum:
  "(GetRoute n line route = Some r \<and> distinct (ri_stops r) \<and>
    (\<forall>s \<in> set (ri_stops r). GetStation n s \<noteq> None) \<and>
    (\<forall>s \<in> set (butlast (ri_stops r)). has_route_edge n r s) \<longrightarrow>
      (\<forall>i j. i < j \<and> j < length (ri_stops r) \<longrightarrow>
         unat (GetTravelTimeOnRoute n line route (ri_stops r ! i) (ri_stops r ! j)) =
           hops_time n r i j mod 2 ^ 32 \<and>
         (hops_time n r i j < 2 ^ 32 \<longrightarrow>
            unat (GetTravelTimeOnRoute n line route (ri_stops r ! i) (ri_stops r ! j)) =
              hops_time n r i j)) \<and>
      (\<forall>i. Suc i < length (ri_stops r) \<longrightarrow>
         GetTravelTimeOnRoute n line route (ri_stops r ! i) (ri_stops r ! Suc i) =
           edge_time n r (ri_stops r ! i))) \<and>
   (a = b \<or> \<not> appears_before n line route a b \<longrightarrow>
      GetTravelTimeOnRoute n line route a b = 0)"
proof (intro conjI impI allI)
  fix i j
  assume h: "GetRoute n line route = Some r \<and> distinct (ri_stops r) \<and>
    (\<forall>s \<in> set (ri_stops r). GetStation n s \<noteq> None) \<and>
    (\<forall>s \<in> set (butlast (ri_stops r)). has_route_edge n r s)"
    and ij: "i < j \<and> j < length (ri_stops r)"
  then have "GetStation n (ri_stops r ! i) \<noteq> None" "GetStation n (ri_stops r ! j) \<noteq> None"
    by auto
  then have "GetTravelTimeOnRoute n line route (ri_stops r ! i) (ri_stops r ! j) =
      walk_route n r (ri_stops r ! i) (ri_stops r ! j) 0 False (ri_stops r)"
    using h by (auto simp: GetTravelTimeOnRoute_def)
  then have "GetTravelTimeOnRoute n line route (ri_stops r ! i) (ri_stops r ! j) =
           sum_list (map (edge_time n r) (take (j - i) (drop i (ri_stops r))))"
    using walk_route_sum[of "ri_stops r" i j n r] h ij by simp
  then show m: "unat (GetTravelTimeOnRoute n line route (ri_stops r ! i) (ri_stops r ! j)) =
           hops_time n r i j mod 2 ^ 32"
    by (simp only: unat_sum_list_32 hops_time_def)
  assume "hops_time n r i j < 2 ^ 32"
  with m show "unat (GetTravelTimeOnRoute n line route (ri_stops r ! i) (ri_stops r ! j)) =
           hops_time n r i j"
    by simp
next
  fix i
  assume h: "GetRoute n line route = Some r \<and> distinct (ri_stops r) \<and>
    (\<forall>s \<in> set (ri_stops r). GetStation n s \<noteq> None) \<and>
    (\<forall>s \<in> set (butlast (ri_stops r)). has_route_edge n r s)"
    and i: "Suc i < length (ri_stops r)"
  then have "GetStation n (ri_stops r ! i) \<noteq> None" "GetStation n (ri_stops r ! Suc i) \<noteq> None"
    by auto
  then have "GetTravelTimeOnRoute n line route (ri_stops r ! i) (ri_stops r ! Suc i) =
      walk_route n r (ri_stops r ! i) (ri_stops r ! Suc i) 0 False (ri_stops r)"
    using h by (auto simp: GetTravelTimeOnRoute_def)
  moreover have "take (Suc i - i) (drop i (ri_stops r)) = [ri_stops r ! i]"
    using i by (simp add: take_Suc_conv_app_nth hd_drop_conv_nth take_Suc)
  ultimately show "GetTravelTimeOnRoute n line route (ri_stops r ! i) (ri_stops r ! Suc i) =
           edge_time n r (ri_stops r ! i)"
    using walk_route_sum[of "ri_stops r" i "Suc i" n r] h i by simp
next
  assume h: "a = b \<or> \<not> appears_before n line route a b"
  show "GetTravelTimeOnRoute n line route a b = 0"
  proof (cases "GetRoute n line route")
    case None
    then show ?thesis by (simp add: GetTravelTimeOnRoute_def)
  next
    case (Some r')
    with h have "a = b \<or> \<not> (\<exists>i j. i < j \<and> j < length (ri_stops r') \<and> ri_stops r' ! i = a \<and> ri_stops r' ! j = b)"
      by (simp add: appears_before_def)
    from walk_route_zero[OF this] Some show ?thesis
      by (simp add: GetTravelTimeOnRoute_def split: option.splits)
  qed
qed

text \<open>
  On the line A, B, C with the travel times 2 and 3: 5 from A to C, 3 from B to C, and 0
  from C to A.
\<close>

theorem GetTravelTimeOnRoute_sum_witness:
  "GetRoute timed_network ''L'' ''R'' = Some route_R \<and>
   distinct (ri_stops route_R) \<and>
   hops_time timed_network route_R 0 2 = 5 \<and>
   unat (GetTravelTimeOnRoute timed_network ''L'' ''R'' ''A'' ''C'') = 5 \<and>
   GetTravelTimeOnRoute timed_network ''L'' ''R'' ''B'' ''C'' = 3 \<and>
   \<not> appears_before timed_network ''L'' ''R'' ''C'' ''A'' \<and>
   GetTravelTimeOnRoute timed_network ''L'' ''R'' ''C'' ''A'' = 0"
proof -
  have r: "GetRoute timed_network ''L'' ''R'' = Some route_R"
    by (simp add: timed_network_eq GetRoute_def GetLine_def)
  have stops: "ri_stops route_R = [''A'', ''B'', ''C'']" by (simp add: route_R_def)
  have d: "distinct (ri_stops route_R)" by (simp add: stops)
  have st: "\<forall>s \<in> set (ri_stops route_R). GetStation timed_network s \<noteq> None"
    by (simp add: stops timed_network_eq GetStation_def)
  have he: "\<forall>s \<in> set (butlast (ri_stops route_R)). has_route_edge timed_network route_R s"
    by (simp add: stops timed_network_eq GetStation_def has_route_edge_def FindEdgeForRoute_def)
  have et: "edge_time timed_network route_R ''A'' = 2" "edge_time timed_network route_R ''B'' = 3"
    by (simp_all add: timed_network_eq GetStation_def edge_time_def FindEdgeForRoute_def)
  have ht: "hops_time timed_network route_R 0 2 = 5"
    by (simp add: hops_time_def stops et)
  have nb: "\<not> appears_before timed_network ''L'' ''R'' ''C'' ''A''"
  proof -
    have "\<not> (i < j \<and> j < length (ri_stops route_R) \<and> ri_stops route_R ! i = ''C'' \<and>
              ri_stops route_R ! j = ''A'')" for i j
    proof (cases j)
      case 0 then show ?thesis by simp
    next
      case (Suc k)
      then show ?thesis by (cases k) (auto simp: stops nth_Cons split: nat.splits)
    qed
    then show ?thesis by (simp add: appears_before_def r)
  qed
  note inst = GetTravelTimeOnRoute_sum[of timed_network "''L''" "''R''" route_R "''C''" "''A''"]
  from inst r d st he have
    1: "\<forall>i j. i < j \<and> j < length (ri_stops route_R) \<longrightarrow>
         unat (GetTravelTimeOnRoute timed_network ''L'' ''R'' (ri_stops route_R ! i) (ri_stops route_R ! j)) =
           hops_time timed_network route_R i j mod 2 ^ 32 \<and>
         (hops_time timed_network route_R i j < 2 ^ 32 \<longrightarrow>
            unat (GetTravelTimeOnRoute timed_network ''L'' ''R'' (ri_stops route_R ! i) (ri_stops route_R ! j)) =
              hops_time timed_network route_R i j)"
    and 2: "\<forall>i. Suc i < length (ri_stops route_R) \<longrightarrow>
         GetTravelTimeOnRoute timed_network ''L'' ''R'' (ri_stops route_R ! i) (ri_stops route_R ! Suc i) =
           edge_time timed_network route_R (ri_stops route_R ! i)"
    by blast+
  from inst nb have 3: "GetTravelTimeOnRoute timed_network ''L'' ''R'' ''C'' ''A'' = 0" by blast
  from 1[rule_format, of 0 2] have ac: "unat (GetTravelTimeOnRoute timed_network ''L'' ''R'' ''A'' ''C'') = 5"
    by (simp add: stops ht)
  from 2[rule_format, of 1] have bc: "GetTravelTimeOnRoute timed_network ''L'' ''R'' ''B'' ''C'' = 3"
    by (simp add: stops et)
  from r d ht ac bc nb 3 show ?thesis by simp
qed

subsection \<open>Loading from JSON\<close>

lemma map_entry_erase:
  assumes "\<And>v. g (f v) = g v"
  shows "map (\<lambda>kv. (fst kv, g (snd kv))) (AList.map_entry k f xs) = map (\<lambda>kv. (fst kv, g (snd kv))) xs"
  by (induction xs) (auto simp: assms)

lemma untimed_modify_node:
  assumes "\<And>nd. erase_times (f nd) = erase_times nd"
  shows "untimed (modify_node k f n) = untimed n"
proof -
  have "map (\<lambda>kv. (fst kv, erase_times (snd kv))) (AList.map_entry k f (stations n)) =
        map (\<lambda>kv. (fst kv, erase_times (snd kv))) (stations n)"
    by (rule map_entry_erase) (rule assms)
  then show ?thesis by (simp add: untimed_def modify_node_def)
qed

lemma erase_setTravelTime:
  "map (\<lambda>e. e\<lparr>e_travelTime := 0\<rparr>) (setTravelTime b t es) = map (\<lambda>e. e\<lparr>e_travelTime := 0\<rparr>) es"
  by (induction es) (simp_all add: setTravelTime_def)

lemma erase_times_setTravelTime:
  "erase_times (nd\<lparr>gn_edges := setTravelTime b t (gn_edges nd)\<rparr>) = erase_times nd"
  by (simp add: erase_times_def erase_setTravelTime)

lemma untimed_SetTravelTime: "untimed (snd (SetTravelTime n a b t)) = untimed n"
proof (cases "GetStation n a = None \<or> GetStation n b = None")
  case True
  then show ?thesis by (auto simp: SetTravelTime_def split: option.splits)
next
  case False
  then obtain na nb where "GetStation n a = Some na" "GetStation n b = Some nb" by auto
  then have "snd (SetTravelTime n a b t) =
      modify_node b (\<lambda>nd. nd\<lparr>gn_edges := setTravelTime a t (gn_edges nd)\<rparr>)
        (modify_node a (\<lambda>nd. nd\<lparr>gn_edges := setTravelTime b t (gn_edges nd)\<rparr>) n)"
    by (simp add: SetTravelTime_def Let_def)
  then show ?thesis
    by (simp only: untimed_modify_node[OF erase_times_setTravelTime])
qed

lemma GetStation_untimed:
  "GetStation (untimed n) x =
     map_option erase_times (GetStation n x)"
proof -
  have "map_of (map (\<lambda>kv. (fst kv, g (snd kv))) xs) x = map_option g (map_of xs x)"
    for g :: "GraphNode \<Rightarrow> GraphNode" and xs
    by (induction xs) auto
  then show ?thesis by (simp add: GetStation_def untimed_def)
qed

lemma edges_of_untimed:
  "edges_of (untimed n) x = map (\<lambda>e. e\<lparr>e_travelTime := 0\<rparr>) (edges_of n x)"
  by (simp add: edges_of_def GetStation_untimed erase_times_def split: option.splits)

lemma adjacent_untimed: "adjacent (untimed n) a b = adjacent n a b"
  by (simp add: adjacent_def edges_of_untimed GetStation_untimed)


lemma adjacent_SetTravelTime:
  "adjacent (snd (SetTravelTime n x y t)) a b = adjacent n a b"
proof -
  have "adjacent (snd (SetTravelTime n x y t)) a b =
        adjacent (untimed (snd (SetTravelTime n x y t))) a b"
    by (simp only: adjacent_untimed)
  also have "\<dots> = adjacent (untimed n) a b" by (simp only: untimed_SetTravelTime)
  also have "\<dots> = adjacent n a b" by (simp only: adjacent_untimed)
  finally show ?thesis .
qed































subsection \<open>One relaxation\<close>

text \<open>The distance computed for the neighbour, and whether the records are updated.\<close>

definition cand :: "PathStop \<Rightarrow> 32 word \<Rightarrow> GraphEdge \<Rightarrow> 32 word" where
  "cand c d f =
     (case edge c of
        None \<Rightarrow> d + e_travelTime f
      | Some ec \<Rightarrow>
          if ri_addr (e_route ec) \<noteq> ri_addr (e_route f) then d + e_travelTime f + 5
          else d + e_travelTime f)"

definition improves :: "PathStop \<Rightarrow> 32 word \<Rightarrow> GraphEdge \<Rightarrow> Dijkstra \<Rightarrow> bool" where
  "improves c d f st =
     (case map_of (distFromA st) (neighbor_of f) of None \<Rightarrow> True | Some old \<Rightarrow> cand c d f < old)"

lemma relax_eq:
  "relax c d f st =
     (if improves c d f st then
        st\<lparr>distFromA := AList.update (neighbor_of f) (cand c d f) (distFromA st),
           previousStop := AList.update (neighbor_of f) c (previousStop st),
           nodesToVisit := nodesToVisit st @ [(neighbor_of f, cand c d f)]\<rparr>
      else st)"
  by (simp add: relax_def Let_def cand_def improves_def neighbor_of_def split: option.splits)

lemma relax_cases:
  obtains (same) "relax c d f st = st"
  | (upd) v where
      "relax c d f st =
         st\<lparr>distFromA := AList.update (neighbor_of f) v (distFromA st),
            previousStop := AList.update (neighbor_of f) c (previousStop st),
            nodesToVisit := nodesToVisit st @ [(neighbor_of f, v)]\<rparr>"
  by (cases "improves c d f st") (simp_all add: relax_eq)

subsection \<open>Only reachable stations are recorded\<close>

definition all_reachable :: "TransportNetwork \<Rightarrow> Id \<Rightarrow> Dijkstra \<Rightarrow> bool" where
  "all_reachable n a st \<longleftrightarrow>
     (\<forall>s \<in> fst ` set (distFromA st). (a, node s) \<in> (edge_rel n)\<^sup>*) \<and>
     (\<forall>s \<in> fst ` set (nodesToVisit st). (a, node s) \<in> (edge_rel n)\<^sup>*)"

lemma all_reachable_relax:
  assumes "all_reachable n a st" and "(a, node c) \<in> (edge_rel n)\<^sup>*"
    and "f \<in> set (edges_of n (node c))"
  shows "all_reachable n a (relax c d f st)"
proof (cases c d f st rule: relax_cases)
  case same
  with assms show ?thesis by simp
next
  case (upd v)
  have "(node c, e_nextStop f) \<in> edge_rel n" using assms(3) by (auto simp: edge_rel_def)
  with assms(2) have r: "(a, node (neighbor_of f)) \<in> (edge_rel n)\<^sup>*"
    by (simp add: neighbor_of_def)
  show ?thesis using assms(1) r unfolding upd all_reachable_def
    by (auto simp: dom_update)
qed

lemma all_reachable_fold:
  assumes "all_reachable n a st" and "(a, node c) \<in> (edge_rel n)\<^sup>*"
    and "set fs \<subseteq> set (edges_of n (node c))"
  shows "all_reachable n a (fold (relax c d) fs st)"
  using assms by (induction fs arbitrary: st) (auto intro: all_reachable_relax)

lemma all_reachable_step:
  assumes "all_reachable n a st" and "nodesToVisit st \<noteq> []"
  shows "all_reachable n a (dijkstra_step n b st)"
proof -
  let ?t = "top (nodesToVisit st)"
  let ?st1 = "st\<lparr>nodesToVisit := remove1 ?t (nodesToVisit st)\<rparr>"
  have "?t \<in> set (nodesToVisit st)" using assms(2) by (rule top_in)
  then have c: "(a, node (fst ?t)) \<in> (edge_rel n)\<^sup>*"
    using assms(1) by (auto simp: all_reachable_def)
  have 1: "all_reachable n a ?st1"
    using assms(1) by (auto simp: all_reachable_def dest: notin_set_remove1)
  show ?thesis
  proof (cases "node (fst ?t) = b")
    case True
    with 1 show ?thesis by (simp add: dijkstra_step_def Let_def)
  next
    case False
    have "all_reachable n a (fold (relax (fst ?t) (snd ?t)) (edges_of n (node (fst ?t))) ?st1)"
      using 1 c by (rule all_reachable_fold) simp
    with False show ?thesis by (simp add: dijkstra_step_def Let_def)
  qed
qed

lemma all_reachable_loop:
  "all_reachable n a st \<Longrightarrow> all_reachable n a (dijkstra_loop n b st)"
proof (induction n b st rule: dijkstra_loop.induct)
  case (1 n b st)
  show ?case
  proof (cases "nodesToVisit st = []")
    case True
    with "1.prems" show ?thesis by (subst dijkstra_loop.simps) simp
  next
    case False
    have "all_reachable n a (dijkstra_step n b st)"
      using "1.prems" False by (rule all_reachable_step)
    with "1.IH"[OF False] have "all_reachable n a (dijkstra_loop n b (dijkstra_step n b st))" .
    with False show ?thesis by (subst dijkstra_loop.simps) simp
  qed
qed

lemma all_reachable_initial: "all_reachable n a (initial a)"
  by (simp add: all_reachable_def initial_def origin_def)

text \<open>
  Claim C10: when one of the two ids is not a station of the network,
  \<^verbatim>\<open>GetFastestTravelRoute\<close> returns the default \<^verbatim>\<open>TravelRoute\<close> (empty ids, total 0, no
  steps) and throws nothing. For two different stations of the network with the second
  not reachable from the first, it returns the two ids with total 0 and no steps, which
  is not the default \<^verbatim>\<open>TravelRoute\<close>.
\<close>

theorem fastest_unknown_or_unreachable:
  "(GetStation n a = None \<or> GetStation n b = None \<longrightarrow>
      GetFastestTravelRoute n a b = Some (Inr default_TravelRoute)) \<and>
   (GetStation n a \<noteq> None \<and> GetStation n b \<noteq> None \<and> a \<noteq> b \<and> (a, b) \<notin> (edge_rel n)\<^sup>* \<longrightarrow>
      GetFastestTravelRoute n a b =
        Some (Inr \<lparr>tr_startStationId = a, tr_endStationId = b,
                   tr_totalTravelTime = 0, tr_steps = []\<rparr>) \<and>
      \<lparr>tr_startStationId = a, tr_endStationId = b, tr_totalTravelTime = 0, tr_steps = []\<rparr>
        \<noteq> default_TravelRoute)"
proof (intro conjI impI)
  assume "GetStation n a = None \<or> GetStation n b = None"
  then show "GetFastestTravelRoute n a b = Some (Inr default_TravelRoute)"
    by (auto simp: GetFastestTravelRoute_def split: option.splits)
next
  assume h: "GetStation n a \<noteq> None \<and> GetStation n b \<noteq> None \<and> a \<noteq> b \<and> (a, b) \<notin> (edge_rel n)\<^sup>*"
  then obtain na nb where na: "GetStation n a = Some na" and nb: "GetStation n b = Some nb" by auto
  let ?st = "dijkstra_loop n b (initial a)"
  have "all_reachable n a ?st" using all_reachable_initial by (rule all_reachable_loop)
  then have "\<forall>pd \<in> set (distFromA ?st). node (fst pd) \<noteq> b"
    using h by (auto simp: all_reachable_def)
  then have "filter (\<lambda>pd. node (fst pd) = b) (distFromA ?st) = []"
    by (simp add: filter_empty_conv)
  then show "GetFastestTravelRoute n a b =
        Some (Inr \<lparr>tr_startStationId = a, tr_endStationId = b,
                   tr_totalTravelTime = 0, tr_steps = []\<rparr>)"
    using na nb h by (simp add: GetFastestTravelRoute_def Let_def initial_def origin_def)
next
  assume h: "GetStation n a \<noteq> None \<and> GetStation n b \<noteq> None \<and> a \<noteq> b \<and> (a, b) \<notin> (edge_rel n)\<^sup>*"
  then have "a \<noteq> [] \<or> b \<noteq> []" by auto
  then show "\<lparr>tr_startStationId = a, tr_endStationId = b, tr_totalTravelTime = 0, tr_steps = []\<rparr>
        \<noteq> default_TravelRoute"
    by (auto simp: default_TravelRoute_def)
qed

theorem fastest_unknown_or_unreachable_witness:
  "GetStation three_stations ''Z'' = None \<and>
   GetFastestTravelRoute three_stations ''A'' ''Z'' = Some (Inr default_TravelRoute) \<and>
   GetStation three_stations ''A'' \<noteq> None \<and> GetStation three_stations ''B'' \<noteq> None \<and>
   (''A'', ''B'') \<notin> (edge_rel three_stations)\<^sup>* \<and>
   GetFastestTravelRoute three_stations ''A'' ''B'' =
     Some (Inr \<lparr>tr_startStationId = ''A'', tr_endStationId = ''B'',
                tr_totalTravelTime = 0, tr_steps = []\<rparr>)"
proof -
  have z: "GetStation three_stations ''Z'' = None"
    and a: "GetStation three_stations ''A'' \<noteq> None"
    and b: "GetStation three_stations ''B'' \<noteq> None"
    by (simp_all add: three_stations_eq GetStation_def)
  have "edges_of three_stations x = []" for x
    by (simp add: edges_of_def three_stations_eq GetStation_def)
  then have "edge_rel three_stations = {}" by (simp add: edge_rel_def)
  then have u: "(''A'', ''B'') \<notin> (edge_rel three_stations)\<^sup>*" by simp
  from fastest_unknown_or_unreachable[of three_stations "''A''" "''Z''"] z
  have 1: "GetFastestTravelRoute three_stations ''A'' ''Z'' = Some (Inr default_TravelRoute)"
    by blast
  from fastest_unknown_or_unreachable[of three_stations "''A''" "''B''"] a b u
  have 2: "GetFastestTravelRoute three_stations ''A'' ''B'' =
     Some (Inr \<lparr>tr_startStationId = ''A'', tr_endStationId = ''B'',
                tr_totalTravelTime = 0, tr_steps = []\<rparr>)"
    by simp
  from z 1 a b u 2 show ?thesis by blast
qed

subsection \<open>The records of Dijkstra's algorithm\<close>

text \<open>
  The maps and the queue of the search, and the stops that are settled: recorded with a
  distance whose queue entry has been taken out.
\<close>

abbreviation distA :: "Dijkstra \<Rightarrow> PathStop \<Rightarrow> 32 word option" where
  "distA st \<equiv> map_of (distFromA st)"

abbreviation prevA :: "Dijkstra \<Rightarrow> PathStop \<Rightarrow> PathStop option" where
  "prevA st \<equiv> map_of (previousStop st)"

abbreviation queueA :: "Dijkstra \<Rightarrow> PathStopDist set" where
  "queueA st \<equiv> set (nodesToVisit st)"

definition settled :: "Dijkstra \<Rightarrow> PathStop \<Rightarrow> 32 word \<Rightarrow> bool" where
  "settled st s d \<longleftrightarrow> distA st s = Some d \<and> (s, d) \<notin> queueA st"

text \<open>The penalty and the cost of taking an edge from a stop.\<close>

definition pen :: "PathStop \<Rightarrow> GraphEdge \<Rightarrow> nat" where
  "pen c f =
     (case edge c of
        None \<Rightarrow> 0
      | Some ec \<Rightarrow> if ri_addr (e_route ec) \<noteq> ri_addr (e_route f) then 5 else 0)"

definition hop :: "PathStop \<Rightarrow> GraphEdge \<Rightarrow> nat" where
  "hop c f = unat (e_travelTime f) + pen c f"

definition slack :: "TransportNetwork \<Rightarrow> nat" where
  "slack n = max_travel_time n + 5"

text \<open>
  The steps that the assembling loop collects from a stop back to station \<open>a\<close>, through
  settled stops only.
\<close>

definition mk_step :: "PathStop \<Rightarrow> PathStop \<Rightarrow> GraphEdge \<Rightarrow> Step" where
  "mk_step p s e =
     \<lparr>step_startStationId = node p, step_endStationId = node s,
      step_lineId = ri_line (e_route e), step_routeId = ri_id (e_route e),
      step_travelTime = e_travelTime e\<rparr>"

inductive swalk :: "Id \<Rightarrow> Dijkstra \<Rightarrow> PathStop \<Rightarrow> Step list \<Rightarrow> bool" for a st where
  swalk_stop: "node s = a \<Longrightarrow> swalk a st s []"
| swalk_step: "node s \<noteq> a \<Longrightarrow> settled st s d \<Longrightarrow> prevA st s = Some p \<Longrightarrow> edge s = Some e \<Longrightarrow>
     swalk a st p bs \<Longrightarrow> swalk a st s (mk_step p s e # bs)"

text \<open>
  The invariant of the loop, in seven parts. \<open>L\<close> is the distance of the entry popped
  last; \<open>P\<close> holds the pairs of a stop and an edge that are still to be relaxed in the
  current turn.
\<close>

definition keys_inv :: "TransportNetwork \<Rightarrow> Id \<Rightarrow> Dijkstra \<Rightarrow> bool" where
  "keys_inv n a st \<longleftrightarrow>
     distinct (map fst (distFromA st)) \<and>
     fst ` set (distFromA st) \<subseteq> insert (origin a) (neighbor_of ` set (all_edges n)) \<and>
     distA st (origin a) = Some 0 \<and> prevA st (origin a) = None \<and>
     (\<forall>d. (origin a, d) \<notin> queueA st)"

definition queue_inv :: "Dijkstra \<Rightarrow> bool" where
  "queue_inv st \<longleftrightarrow>
     distinct (nodesToVisit st) \<and>
     (\<forall>s d. (s, d) \<in> queueA st \<longrightarrow> (\<exists>d'. distA st s = Some d' \<and> d' \<le> d))"

definition level_inv :: "32 word \<Rightarrow> Dijkstra \<Rightarrow> bool" where
  "level_inv L st \<longleftrightarrow>
     (\<forall>s d. settled st s d \<longrightarrow> d \<le> L) \<and> (\<forall>s d. (s, d) \<in> queueA st \<longrightarrow> L \<le> d)"

definition edges_inv :: "TransportNetwork \<Rightarrow> Id \<Rightarrow> (PathStop \<times> GraphEdge) set \<Rightarrow> Dijkstra \<Rightarrow> bool" where
  "edges_inv n b P st \<longleftrightarrow>
     (\<forall>s d f. settled st s d \<and> node s \<noteq> b \<and> f \<in> set (edges_of n (node s)) \<and> (s, f) \<notin> P \<longrightarrow>
        (\<exists>dn. distA st (neighbor_of f) = Some dn \<and> unat dn \<le> unat d + hop s f))"

definition prev_inv :: "TransportNetwork \<Rightarrow> Id \<Rightarrow> Id \<Rightarrow> Dijkstra \<Rightarrow> bool" where
  "prev_inv n a b st \<longleftrightarrow>
     (\<forall>s d. distA st s = Some d \<longrightarrow> s = origin a \<or> prevA st s \<noteq> None) \<and>
     (\<forall>s c. prevA st s = Some c \<longrightarrow>
        (\<exists>f d dc. edge s = Some f \<and> node s = e_nextStop f \<and> f \<in> set (edges_of n (node c)) \<and>
           distA st s = Some d \<and> settled st c dc \<and> node c \<noteq> b \<and>
           unat d = unat dc + hop c f \<and> (node c = a \<longrightarrow> c = origin a)))"

definition bound_inv :: "TransportNetwork \<Rightarrow> Dijkstra \<Rightarrow> bool" where
  "bound_inv n st \<longleftrightarrow>
     (\<forall>s d. distA st s = Some d \<longrightarrow> unat d \<le> (length (distFromA st) - 1) * slack n) \<and>
     (\<forall>s d. (s, d) \<in> queueA st \<longrightarrow> unat d \<le> (length (distFromA st) - 1) * slack n)"

definition walk_inv :: "Id \<Rightarrow> Dijkstra \<Rightarrow> bool" where
  "walk_inv a st \<longleftrightarrow> (\<forall>s d. settled st s d \<longrightarrow> (\<exists>bs. swalk a st s bs))"

definition dinv ::
  "TransportNetwork \<Rightarrow> Id \<Rightarrow> Id \<Rightarrow> 32 word \<Rightarrow> (PathStop \<times> GraphEdge) set \<Rightarrow> Dijkstra \<Rightarrow> bool" where
  "dinv n a b L P st \<longleftrightarrow>
     keys_inv n a st \<and> queue_inv st \<and> level_inv L st \<and> edges_inv n b P st \<and>
     prev_inv n a b st \<and> bound_inv n st \<and> walk_inv a st"

lemma fold_max_ge: "x \<in> set xs \<Longrightarrow> x \<le> fold max xs (y::nat)"
proof (induction xs arbitrary: y)
  case Nil then show ?case by simp
next
  case (Cons z zs)
  have mono: "y \<le> fold max zs y" for y :: nat
    by (induction zs arbitrary: y) (auto intro: order_trans[OF max.cobounded2])
  show ?case
  proof (cases "x = z")
    case True
    have "z \<le> max z y" by simp
    also have "\<dots> \<le> fold max zs (max z y)" by (rule mono)
    finally show ?thesis using True by simp
  next
    case False
    with Cons.prems have "x \<in> set zs" by simp
    then show ?thesis using Cons.IH by simp
  qed
qed

lemma edge_time_le_slack:
  assumes "f \<in> set (all_edges n)"
  shows "unat (e_travelTime f) + 5 \<le> slack n"
proof -
  have "unat (e_travelTime f) \<in> set (map (\<lambda>e. unat (e_travelTime e)) (all_edges n))"
    using assms by auto
  then have "unat (e_travelTime f) \<le> max_travel_time n"
    unfolding max_travel_time_def by (rule fold_max_ge)
  then show ?thesis by (simp add: slack_def)
qed

lemma pen_le: "pen c f \<le> 5"
  by (simp add: pen_def split: option.splits)

lemma hop_le_slack: "f \<in> set (all_edges n) \<Longrightarrow> hop c f \<le> slack n"
  using edge_time_le_slack[of f n] pen_le[of c f] by (simp add: hop_def)

lemma keys_length:
  assumes "keys_inv n a st"
  shows "length (distFromA st) \<le> length (all_edges n) + 1"
proof -
  from assms have d: "distinct (map fst (distFromA st))"
    and s: "fst ` set (distFromA st) \<subseteq> insert (origin a) (neighbor_of ` set (all_edges n))"
    by (simp_all add: keys_inv_def)
  have "length (distFromA st) = card (set (map fst (distFromA st)))"
    using distinct_card[OF d] by simp
  also have "\<dots> \<le> card (insert (origin a) (neighbor_of ` set (all_edges n)))"
    using s by (intro card_mono) auto
  also have "\<dots> \<le> Suc (card (neighbor_of ` set (all_edges n)))"
    by (simp add: card_insert_if)
  also have "card (neighbor_of ` set (all_edges n)) \<le> card (set (all_edges n))"
    by (rule card_image_le) simp
  also have "card (set (all_edges n)) \<le> length (all_edges n)" by (rule card_length)
  finally show ?thesis by simp
qed

lemma unat_cand:
  assumes "unat d + unat (e_travelTime f) + 5 < 2 ^ 32"
  shows "unat (cand c d f) = unat d + hop c f"
proof -
  have 1: "unat (d + e_travelTime f) = unat d + unat (e_travelTime f)"
    using assms by (intro unat_add_lem[THEN iffD1]) simp
  have 2: "unat (d + e_travelTime f + 5) = unat d + unat (e_travelTime f) + 5"
  proof -
    have "unat (d + e_travelTime f) + unat (5 :: 32 word) < 2 ^ LENGTH(32)"
      using assms 1 by simp
    then have "unat (d + e_travelTime f + 5) = unat (d + e_travelTime f) + unat (5 :: 32 word)"
      by (rule unat_add_lem[THEN iffD1])
    then show ?thesis using 1 by simp
  qed
  show ?thesis
    by (simp add: cand_def hop_def pen_def 1 2 split: option.splits)
qed

lemma cand_no_wrap:
  assumes k: "keys_inv n a st" and no: "no_overflow n"
    and f: "f \<in> set (all_edges n)"
    and d: "unat d \<le> (length (distFromA st) - 1) * slack n"
  shows "unat (cand c d f) = unat d + hop c f"
proof -
  have len: "length (distFromA st) \<le> length (all_edges n) + 1" using k by (rule keys_length)
  have "length (distFromA st) \<noteq> 0"
    using k by (auto simp: keys_inv_def)
  then have "(length (distFromA st) - 1) * slack n + slack n = length (distFromA st) * slack n"
    by (cases "length (distFromA st)") simp_all
  moreover have "length (distFromA st) * slack n \<le> (length (all_edges n) + 1) * slack n"
    using len by (rule mult_le_mono1)
  moreover have "(length (all_edges n) + 1) * slack n < 2 ^ 32"
    using no by (simp add: no_overflow_def slack_def)
  moreover note edge_time_le_slack[OF f] d
  ultimately have "unat d + unat (e_travelTime f) + 5 < 2 ^ 32" by linarith
  then show ?thesis by (rule unat_cand)
qed

lemma swalk_mono:
  assumes "swalk a st s bs"
    and "\<And>x d. settled st x d \<Longrightarrow> settled st' x d \<and> prevA st' x = prevA st x"
  shows "swalk a st' s bs"
  using assms(1)
proof (induction rule: swalk.induct)
  case (swalk_stop s)
  then show ?case by (rule swalk.swalk_stop)
next
  case (swalk_step s d p e bs)
  from assms(2)[OF swalk_step.hyps(2)] have "settled st' s d" "prevA st' s = prevA st s" by auto
  with swalk_step show ?case by (auto intro: swalk.swalk_step)
qed

lemma top_min:
  assumes "q \<noteq> []" and "x \<in> set q"
  shows "snd (top q) \<le> snd x"
proof -
  have "snd (fold (\<lambda>y m. if snd y < snd m then y else m) xs z) \<le> snd z \<and>
        (\<forall>x \<in> set xs. snd (fold (\<lambda>y m. if snd y < snd m then y else m) xs z) \<le> snd x)"
    for xs and z :: PathStopDist
  proof (induction xs arbitrary: z)
    case Nil then show ?case by simp
  next
    case (Cons y ys)
    let ?z' = "if snd y < snd z then y else z"
    from Cons.IH[of ?z'] have
      1: "snd (fold (\<lambda>y m. if snd y < snd m then y else m) ys ?z') \<le> snd ?z'"
      and 2: "\<forall>x \<in> set ys. snd (fold (\<lambda>y m. if snd y < snd m then y else m) ys ?z') \<le> snd x"
      by auto
    have "snd ?z' \<le> snd z" "snd ?z' \<le> snd y" by auto
    with 1 2 show ?case by (auto intro: order_trans)
  qed
  then show ?thesis using assms by (cases q) auto
qed

definition updated :: "PathStop \<Rightarrow> 32 word \<Rightarrow> GraphEdge \<Rightarrow> Dijkstra \<Rightarrow> Dijkstra" where
  "updated c v f st =
     st\<lparr>distFromA := AList.update (neighbor_of f) v (distFromA st),
        previousStop := AList.update (neighbor_of f) c (previousStop st),
        nodesToVisit := nodesToVisit st @ [(neighbor_of f, v)]\<rparr>"

lemma relax_updated:
  "relax c d f st = (if improves c d f st then updated c (cand c d f) f st else st)"
  by (simp add: relax_eq updated_def)

lemma distA_updated: "distA (updated c v f st) = (distA st)(neighbor_of f \<mapsto> v)"
  by (simp add: updated_def update_conv')

lemma prevA_updated: "prevA (updated c v f st) = (prevA st)(neighbor_of f \<mapsto> c)"
  by (simp add: updated_def update_conv')

lemma queueA_updated: "queueA (updated c v f st) = insert (neighbor_of f, v) (queueA st)"
  by (simp add: updated_def)

lemma length_updated:
  "length (distFromA (updated c v f st)) =
     (if distA st (neighbor_of f) = None then Suc (length (distFromA st))
      else length (distFromA st))"
proof -
  have "length (AList.update k v al) = (if map_of al k = None then Suc (length al) else length al)"
    for k :: PathStop and v :: "32 word" and al
    by (induction al) auto
  then show ?thesis by (simp add: updated_def)
qed

lemma settled_updated:
  "settled (updated c v f st) s x \<longleftrightarrow> s \<noteq> neighbor_of f \<and> settled st s x"
  by (auto simp: settled_def distA_updated queueA_updated)

lemma settled_fun: "settled st s x \<Longrightarrow> settled st s y \<Longrightarrow> x = y"
  by (simp add: settled_def)

definition fold_pre ::
  "TransportNetwork \<Rightarrow> Id \<Rightarrow> Id \<Rightarrow> PathStop \<Rightarrow> 32 word \<Rightarrow> (PathStop \<times> GraphEdge) set \<Rightarrow> Dijkstra \<Rightarrow> bool" where
  "fold_pre n a b c d P st \<longleftrightarrow>
     dinv n a b d P st \<and> no_overflow n \<and> a \<noteq> b \<and> P \<subseteq> {c} \<times> UNIV \<and> node c \<noteq> b \<and>
     unat d \<le> (length (distFromA st) - 1) * slack n \<and>
     (\<exists>dc. settled st c dc \<and> dc \<le> d \<and> (dc = d \<or> P = {}))"

lemma neighbor_of_simps [simp]:
  "node (neighbor_of f) = e_nextStop f" "edge (neighbor_of f) = Some f"
  by (simp_all add: neighbor_of_def)

lemma origin_simps [simp]: "node (origin a) = a" "edge (origin a) = None"
  by (simp_all add: origin_def)

lemma neighbor_not_origin [simp]: "neighbor_of f \<noteq> origin a" "origin a \<noteq> neighbor_of f"
  by (simp_all add: neighbor_of_def origin_def)

lemma hop_origin [simp]: "hop (origin a) f = unat (e_travelTime f)"
  by (simp add: hop_def pen_def)

lemma cand_pre:
  assumes "fold_pre n a b c d P st" and "f \<in> set (edges_of n (node c))"
  shows "unat (cand c d f) = unat d + hop c f"
proof -
  from assms(1) have "keys_inv n a st" "no_overflow n"
    "unat d \<le> (length (distFromA st) - 1) * slack n"
    by (simp_all add: fold_pre_def dinv_def)
  moreover have "f \<in> set (all_edges n)" using assms(2) edges_of_subset by blast
  ultimately show ?thesis by (intro cand_no_wrap)
qed

lemma improve_settled:
  assumes pre: "fold_pre n a b c d P st" and f: "f \<in> set (edges_of n (node c))"
    and imp: "improves c d f st"
  shows "settled st c d"
proof -
  from pre obtain dc where dc: "settled st c dc" "dc \<le> d" "dc = d \<or> P = {}"
    by (auto simp: fold_pre_def)
  show ?thesis
  proof (cases "dc = d")
    case True with dc show ?thesis by simp
  next
    case False
    with dc have P: "(c, f) \<notin> P" by simp
    from pre have "edges_inv n b P st" "node c \<noteq> b" by (simp_all add: fold_pre_def dinv_def)
    with dc(1) f P obtain dn where dn: "distA st (neighbor_of f) = Some dn"
      "unat dn \<le> unat dc + hop c f"
      unfolding edges_inv_def by blast
    have "unat dc \<le> unat d" using dc(2) by (simp add: word_le_nat_alt)
    with dn(2) cand_pre[OF pre f] have "unat dn \<le> unat (cand c d f)" by simp
    moreover from imp dn(1) have "cand c d f < dn" by (simp add: improves_def)
    ultimately show ?thesis by (simp add: word_less_nat_alt)
  qed
qed

lemma improve_less:
  assumes "improves c d f st" and "distA st (neighbor_of f) = Some x"
  shows "cand c d f < x"
  using assms by (simp add: improves_def)

lemma improve_unsettled:
  assumes pre: "fold_pre n a b c d P st" and f: "f \<in> set (edges_of n (node c))"
    and imp: "improves c d f st"
  shows "\<not> settled st (neighbor_of f) x"
proof
  assume s: "settled st (neighbor_of f) x"
  from pre have "level_inv d st" by (simp add: fold_pre_def dinv_def)
  with s have "x \<le> d" by (auto simp: level_inv_def)
  then have "unat x \<le> unat (cand c d f)"
    using cand_pre[OF pre f] by (simp add: word_le_nat_alt)
  moreover from s have "distA st (neighbor_of f) = Some x" by (simp add: settled_def)
  with imp have "cand c d f < x" by (rule improve_less)
  ultimately show False by (simp add: word_less_nat_alt)
qed

lemma improve_not_c:
  assumes "fold_pre n a b c d P st" and "f \<in> set (edges_of n (node c))" and "improves c d f st"
  shows "neighbor_of f \<noteq> c"
  using improve_settled[OF assms] improve_unsettled[OF assms] by auto

lemma improve_fresh_entry:
  assumes pre: "fold_pre n a b c d P st" and imp: "improves c d f st"
  shows "(neighbor_of f, cand c d f) \<notin> queueA st"
proof
  assume "(neighbor_of f, cand c d f) \<in> queueA st"
  moreover from pre have "queue_inv st" by (simp add: fold_pre_def dinv_def)
  ultimately obtain d' where "distA st (neighbor_of f) = Some d'" "d' \<le> cand c d f"
    unfolding queue_inv_def by blast
  with improve_less[OF imp] show False by auto
qed

lemma improve_from_origin:
  assumes pre: "fold_pre n a b c d P st" and f: "f \<in> set (edges_of n (node c))"
    and imp: "improves c d f st" and na: "node c = a"
  shows "c = origin a"
proof (rule ccontr)
  assume c: "c \<noteq> origin a"
  from pre have k: "keys_inv n a st" and e: "edges_inv n b P st" and ab: "a \<noteq> b"
    and P: "P \<subseteq> {c} \<times> UNIV"
    by (simp_all add: fold_pre_def dinv_def)
  from k have "settled st (origin a) 0" by (simp add: keys_inv_def settled_def)
  moreover have "node (origin a) \<noteq> b" using ab by simp
  moreover have "f \<in> set (edges_of n (node (origin a)))" using f na by simp
  moreover have "(origin a, f) \<notin> P" using P c by auto
  ultimately obtain dn where dn: "distA st (neighbor_of f) = Some dn"
    "unat dn \<le> unat (0 :: 32 word) + hop (origin a) f"
    using e unfolding edges_inv_def by blast
  have "hop (origin a) f \<le> hop c f" by (simp add: hop_def pen_def)
  with dn(2) cand_pre[OF pre f] have "unat dn \<le> unat (cand c d f)" by simp
  with improve_less[OF imp dn(1)] show False by (simp add: word_less_nat_alt)
qed

lemma keys_updated:
  assumes pre: "fold_pre n a b c d P st" and f: "f \<in> set (edges_of n (node c))"
  shows "keys_inv n a (updated c v f st)"
proof -
  from pre have k: "keys_inv n a st" by (simp add: fold_pre_def dinv_def)
  have fa: "f \<in> set (all_edges n)" using f edges_of_subset by blast
  have 1: "distinct (map fst (distFromA (updated c v f st)))"
    using k by (simp add: updated_def keys_inv_def distinct_update)
  have 2: "fst ` set (distFromA (updated c v f st)) \<subseteq>
             insert (origin a) (neighbor_of ` set (all_edges n))"
    using k fa by (auto simp: updated_def keys_inv_def dom_update)
  have 3: "distA (updated c v f st) (origin a) = Some 0"
    using k by (simp add: distA_updated keys_inv_def)
  have 4: "prevA (updated c v f st) (origin a) = None"
    using k by (simp add: prevA_updated keys_inv_def)
  have 5: "\<forall>x. (origin a, x) \<notin> queueA (updated c v f st)"
    using k by (simp add: queueA_updated keys_inv_def)
  from 1 2 3 4 5 show ?thesis unfolding keys_inv_def by blast
qed

lemma queue_updated:
  assumes pre: "fold_pre n a b c d P st" and imp: "improves c d f st"
  shows "queue_inv (updated c (cand c d f) f st)"
proof -
  let ?v = "cand c d f" and ?nb = "neighbor_of f"
  from pre have q: "queue_inv st" by (simp add: fold_pre_def dinv_def)
  have fresh: "(?nb, ?v) \<notin> queueA st" using pre imp by (rule improve_fresh_entry)
  have 1: "distinct (nodesToVisit (updated c ?v f st))"
    using q fresh by (simp add: updated_def queue_inv_def)
  have 2: "\<exists>d'. distA (updated c ?v f st) s = Some d' \<and> d' \<le> x"
    if "(s, x) \<in> queueA (updated c ?v f st)" for s x
  proof (cases "(s, x) = (?nb, ?v)")
    case True
    then show ?thesis by (simp add: distA_updated)
  next
    case False
    with that have "(s, x) \<in> queueA st" by (auto simp: queueA_updated)
    with q obtain d' where d': "distA st s = Some d'" "d' \<le> x"
      unfolding queue_inv_def by blast
    show ?thesis
    proof (cases "s = ?nb")
      case True
      with d'(1) improve_less[OF imp] have "?v < d'" by simp
      with d'(2) have "?v \<le> x" by simp
      with True show ?thesis by (simp add: distA_updated)
    next
      case False
      with d' show ?thesis by (simp add: distA_updated)
    qed
  qed
  from 1 2 show ?thesis unfolding queue_inv_def by blast
qed

lemma level_updated:
  assumes pre: "fold_pre n a b c d P st" and f: "f \<in> set (edges_of n (node c))"
  shows "level_inv d (updated c (cand c d f) f st)"
proof -
  from pre have l: "level_inv d st" by (simp add: fold_pre_def dinv_def)
  have "unat d \<le> unat (cand c d f)" using cand_pre[OF pre f] by simp
  then have "d \<le> cand c d f" by (simp add: word_le_nat_alt)
  with l show ?thesis
    by (auto simp: level_inv_def settled_updated queueA_updated)
qed

lemma edges_updated:
  assumes pre: "fold_pre n a b c d P st" and f: "f \<in> set (edges_of n (node c))"
    and imp: "improves c d f st"
  shows "edges_inv n b (P - {(c, f)}) (updated c (cand c d f) f st)"
  unfolding edges_inv_def
proof (intro allI impI)
  fix s x f'
  let ?v = "cand c d f" and ?nb = "neighbor_of f"
  assume h: "settled (updated c ?v f st) s x \<and> node s \<noteq> b \<and>
             f' \<in> set (edges_of n (node s)) \<and> (s, f') \<notin> P - {(c, f)}"
  then have s: "settled st s x" and sb: "node s \<noteq> b" and f': "f' \<in> set (edges_of n (node s))"
    by (simp_all add: settled_updated)
  from pre have e: "edges_inv n b P st" by (simp add: fold_pre_def dinv_def)
  show "\<exists>dn. distA (updated c ?v f st) (neighbor_of f') = Some dn \<and> unat dn \<le> unat x + hop s f'"
  proof (cases "(s, f') \<in> P")
    case True
    with h have sf: "s = c" "f' = f" by auto
    have "settled st c d" using pre f imp by (rule improve_settled)
    with s sf have "x = d" by (auto dest: settled_fun)
    then show ?thesis using sf cand_pre[OF pre f] by (simp add: distA_updated)
  next
    case False
    with e s sb f' obtain dn where dn: "distA st (neighbor_of f') = Some dn"
      "unat dn \<le> unat x + hop s f'"
      unfolding edges_inv_def by blast
    show ?thesis
    proof (cases "neighbor_of f' = ?nb")
      case True
      with dn(1) improve_less[OF imp] have "?v < dn" by simp
      then have "unat ?v \<le> unat dn" by (simp add: word_less_nat_alt)
      with dn(2) True show ?thesis by (simp add: distA_updated)
    next
      case False
      with dn show ?thesis by (simp add: distA_updated)
    qed
  qed
qed

lemma prev_updated:
  assumes pre: "fold_pre n a b c d P st" and f: "f \<in> set (edges_of n (node c))"
    and imp: "improves c d f st"
  shows "prev_inv n a b (updated c (cand c d f) f st)"
proof -
  let ?v = "cand c d f" and ?nb = "neighbor_of f" and ?st' = "updated c (cand c d f) f st"
  from pre have p: "prev_inv n a b st" and cb: "node c \<noteq> b" by (simp_all add: fold_pre_def dinv_def)
  have sc: "settled st c d" using pre f imp by (rule improve_settled)
  have nc: "?nb \<noteq> c" using pre f imp by (rule improve_not_c)
  have uns: "\<not> settled st ?nb x" for x using pre f imp by (rule improve_unsettled)
  have 1: "s = origin a \<or> prevA ?st' s \<noteq> None" if "distA ?st' s = Some x" for s x
  proof (cases "s = ?nb")
    case True then show ?thesis by (simp add: prevA_updated)
  next
    case False
    with that have "distA st s = Some x" by (simp add: distA_updated)
    with p have "s = origin a \<or> prevA st s \<noteq> None" unfolding prev_inv_def by blast
    with False show ?thesis by (simp add: prevA_updated)
  qed
  have 2: "\<exists>g x dc. edge s = Some g \<and> node s = e_nextStop g \<and> g \<in> set (edges_of n (node c')) \<and>
           distA ?st' s = Some x \<and> settled ?st' c' dc \<and> node c' \<noteq> b \<and>
           unat x = unat dc + hop c' g \<and> (node c' = a \<longrightarrow> c' = origin a)"
    if "prevA ?st' s = Some c'" for s c'
  proof (cases "s = ?nb")
    case True
    with that have c': "c' = c" by (simp add: prevA_updated)
    have "settled ?st' c d" using sc nc by (simp add: settled_updated)
    moreover have "node c = a \<longrightarrow> c = origin a"
      using improve_from_origin[OF pre f imp] by blast
    ultimately show ?thesis
      using True c' f cb cand_pre[OF pre f] by (auto simp: distA_updated)
  next
    case False
    with that have "prevA st s = Some c'" by (simp add: prevA_updated)
    with p obtain g x dc where g: "edge s = Some g" "node s = e_nextStop g"
      "g \<in> set (edges_of n (node c'))" "distA st s = Some x" "settled st c' dc" "node c' \<noteq> b"
      "unat x = unat dc + hop c' g" "node c' = a \<longrightarrow> c' = origin a"
      unfolding prev_inv_def by blast
    from g(5) uns have "c' \<noteq> ?nb" by auto
    with g(5) have "settled ?st' c' dc" by (simp add: settled_updated)
    moreover have "distA ?st' s = Some x" using g(4) False by (simp add: distA_updated)
    ultimately show ?thesis using g by blast
  qed
  from 1 2 show ?thesis unfolding prev_inv_def by blast
qed

lemma bound_updated:
  assumes pre: "fold_pre n a b c d P st" and f: "f \<in> set (edges_of n (node c))"
    and imp: "improves c d f st"
  shows "bound_inv n (updated c (cand c d f) f st)"
    and "unat d \<le> (length (distFromA (updated c (cand c d f) f st)) - 1) * slack n"
proof -
  let ?v = "cand c d f" and ?nb = "neighbor_of f" and ?st' = "updated c (cand c d f) f st"
  let ?B = "(length (distFromA st) - 1) * slack n"
  let ?B' = "(length (distFromA ?st') - 1) * slack n"
  from pre have bi: "bound_inv n st" and k: "keys_inv n a st" and d: "unat d \<le> ?B"
    by (simp_all add: fold_pre_def dinv_def)
  have fa: "f \<in> set (all_edges n)" using f edges_of_subset by blast
  have len: "length (distFromA st) \<noteq> 0" using k by (auto simp: keys_inv_def)
  have mono: "?B \<le> ?B'" by (simp add: length_updated)
  have v: "unat ?v \<le> ?B'"
  proof (cases "distA st ?nb")
    case None
    have "unat ?v \<le> ?B + slack n"
      using cand_pre[OF pre f] d hop_le_slack[OF fa, of c] by simp
    also have "?B + slack n = ?B'"
      using None len by (cases "length (distFromA st)") (simp_all add: length_updated)
    finally show ?thesis .
  next
    case (Some old)
    with improve_less[OF imp] have "?v < old" by simp
    then have "unat ?v \<le> unat old" by (simp add: word_less_nat_alt)
    also have "unat old \<le> ?B" using bi Some unfolding bound_inv_def by blast
    also note mono
    finally show ?thesis .
  qed
  have 1: "unat x \<le> ?B'" if "distA ?st' s = Some x" for s x
  proof (cases "s = ?nb")
    case True
    with that v show ?thesis by (simp add: distA_updated)
  next
    case False
    with that have "distA st s = Some x" by (simp add: distA_updated)
    with bi have "unat x \<le> ?B" unfolding bound_inv_def by blast
    then show ?thesis using mono by (rule order_trans)
  qed
  have 2: "unat x \<le> ?B'" if "(s, x) \<in> queueA ?st'" for s x
  proof (cases "(s, x) = (?nb, ?v)")
    case True
    with v show ?thesis by simp
  next
    case False
    with that have "(s, x) \<in> queueA st" by (auto simp: queueA_updated)
    with bi have "unat x \<le> ?B" unfolding bound_inv_def by blast
    then show ?thesis using mono by (rule order_trans)
  qed
  from 1 2 show "bound_inv n ?st'" unfolding bound_inv_def by blast
  from d mono show "unat d \<le> ?B'" by (rule order_trans)
qed

lemma walk_updated:
  assumes pre: "fold_pre n a b c d P st" and f: "f \<in> set (edges_of n (node c))"
    and imp: "improves c d f st"
  shows "walk_inv a (updated c (cand c d f) f st)"
  unfolding walk_inv_def
proof (intro allI impI)
  fix s x
  let ?st' = "updated c (cand c d f) f st"
  assume "settled ?st' s x"
  then have s: "settled st s x" by (simp add: settled_updated)
  from pre have "walk_inv a st" by (simp add: fold_pre_def dinv_def)
  with s obtain bs where bs: "swalk a st s bs" unfolding walk_inv_def by blast
  have uns: "\<not> settled st (neighbor_of f) y" for y using pre f imp by (rule improve_unsettled)
  have "swalk a ?st' s bs"
    using bs
  proof (rule swalk_mono)
    fix y dy assume y: "settled st y dy"
    with uns have "y \<noteq> neighbor_of f" by auto
    with y show "settled ?st' y dy \<and> prevA ?st' y = prevA st y"
      by (simp add: settled_updated prevA_updated)
  qed
  then show "\<exists>bs. swalk a ?st' s bs" ..
qed

lemma edges_not_improved:
  assumes pre: "fold_pre n a b c d P st" and f: "f \<in> set (edges_of n (node c))"
    and imp: "\<not> improves c d f st"
  shows "edges_inv n b (P - {(c, f)}) st"
  unfolding edges_inv_def
proof (intro allI impI)
  fix s x f'
  assume h: "settled st s x \<and> node s \<noteq> b \<and> f' \<in> set (edges_of n (node s)) \<and>
             (s, f') \<notin> P - {(c, f)}"
  from pre have e: "edges_inv n b P st" by (simp add: fold_pre_def dinv_def)
  show "\<exists>dn. distA st (neighbor_of f') = Some dn \<and> unat dn \<le> unat x + hop s f'"
  proof (cases "(s, f') \<in> P")
    case False
    with e h show ?thesis unfolding edges_inv_def by blast
  next
    case True
    with h have sf: "s = c" "f' = f" by auto
    from pre True obtain dc where "settled st c dc" "dc = d"
      by (auto simp: fold_pre_def)
    with h sf have x: "x = d" by (auto dest: settled_fun)
    from imp obtain old where old: "distA st (neighbor_of f) = Some old" "\<not> cand c d f < old"
      by (auto simp: improves_def split: option.splits)
    then have "unat old \<le> unat (cand c d f)" by (simp add: word_less_nat_alt)
    with old(1) sf x cand_pre[OF pre f] show ?thesis by simp
  qed
qed

lemma relax_preserves:
  assumes pre: "fold_pre n a b c d P st" and f: "f \<in> set (edges_of n (node c))"
  shows "fold_pre n a b c d (P - {(c, f)}) (relax c d f st)"
proof (cases "improves c d f st")
  case False
  have "edges_inv n b (P - {(c, f)}) st" using pre f False by (rule edges_not_improved)
  with pre have "dinv n a b d (P - {(c, f)}) st" by (simp add: fold_pre_def dinv_def)
  moreover have "P - {(c, f)} \<subseteq> {c} \<times> UNIV" using pre by (auto simp: fold_pre_def)
  moreover from pre have "\<exists>dc. settled st c dc \<and> dc \<le> d \<and> (dc = d \<or> P - {(c, f)} = {})"
    by (auto simp: fold_pre_def)
  ultimately show ?thesis using pre False by (simp add: fold_pre_def relax_updated)
next
  case True
  let ?st' = "updated c (cand c d f) f st"
  have "dinv n a b d (P - {(c, f)}) ?st'"
    unfolding dinv_def
    using keys_updated[OF pre f] queue_updated[OF pre True] level_updated[OF pre f]
      edges_updated[OF pre f True] prev_updated[OF pre f True] bound_updated(1)[OF pre f True]
      walk_updated[OF pre f True]
    by blast
  moreover have "P - {(c, f)} \<subseteq> {c} \<times> UNIV" using pre by (auto simp: fold_pre_def)
  moreover have "settled ?st' c d"
    using improve_settled[OF pre f True] improve_not_c[OF pre f True]
    by (simp add: settled_updated)
  ultimately show ?thesis
    using pre True bound_updated(2)[OF pre f True]
    by (auto simp: fold_pre_def relax_updated)
qed

lemma fold_relax_preserves:
  assumes "fold_pre n a b c d P st" and "set fs \<subseteq> set (edges_of n (node c))"
    and "P \<subseteq> {c} \<times> set fs"
  shows "fold_pre n a b c d {} (fold (relax c d) fs st)"
  using assms
proof (induction fs arbitrary: P st)
  case Nil
  then show ?case by simp
next
  case (Cons f fs)
  from Cons.prems have f: "f \<in> set (edges_of n (node c))" by simp
  have 1: "fold_pre n a b c d (P - {(c, f)}) (relax c d f st)"
    using Cons.prems(1) f by (rule relax_preserves)
  have 2: "P - {(c, f)} \<subseteq> {c} \<times> set fs" using Cons.prems(3) by auto
  from Cons.IH[OF 1 _ 2] Cons.prems(2) show ?case by simp
qed

lemma settled_popped:
  assumes "distinct (nodesToVisit st)"
  shows "settled (st\<lparr>nodesToVisit := remove1 t (nodesToVisit st)\<rparr>) s x \<longleftrightarrow>
         settled st s x \<or> (distA st s = Some x \<and> (s, x) = t)"
  using assms by (auto simp: settled_def)

lemma pop_preserves:
  assumes inv: "dinv n a b L {} st" and ne: "nodesToVisit st \<noteq> []"
    and t: "t = top (nodesToVisit st)" and dc: "distA st (fst t) = Some dc"
    and P: "P = (if dc = snd t \<and> node (fst t) \<noteq> b then {fst t} \<times> set (edges_of n (node (fst t))) else {})"
  shows "dinv n a b (snd t) P (st\<lparr>nodesToVisit := remove1 t (nodesToVisit st)\<rparr>)"
proof -
  let ?st1 = "st\<lparr>nodesToVisit := remove1 t (nodesToVisit st)\<rparr>"
  from inv have k: "keys_inv n a st" and q: "queue_inv st" and l: "level_inv L st"
    and e: "edges_inv n b {} st" and p: "prev_inv n a b st" and bo: "bound_inv n st"
    and w: "walk_inv a st"
    by (simp_all add: dinv_def)
  from q have dq: "distinct (nodesToVisit st)" by (simp add: queue_inv_def)
  have tin: "t \<in> queueA st" using ne t top_in by simp
  have tmin: "snd t \<le> x" if "(s, x) \<in> queueA st" for s x
    using top_min[OF ne that] t by simp
  have q1: "queueA ?st1 = queueA st - {t}" using dq by simp
  have sub: "settled st s x \<Longrightarrow> settled ?st1 s x" for s x
    by (simp add: settled_popped[OF dq])
  have new: "settled st s x \<or> ((s, x) = t \<and> dc = snd t)" if "settled ?st1 s x" for s x
    using that dc by (auto simp: settled_popped[OF dq])
  have 1: "keys_inv n a ?st1" using k by (auto simp: keys_inv_def q1)
  have 2: "queue_inv ?st1" using q by (auto simp: queue_inv_def q1)
  have Lt: "L \<le> snd t" using l tin unfolding level_inv_def by (cases t) auto
  have 3: "level_inv (snd t) ?st1"
    unfolding level_inv_def
  proof (intro conjI allI impI)
    fix s x assume "settled ?st1 s x"
    from new[OF this] show "x \<le> snd t"
    proof
      assume "settled st s x"
      with l have "x \<le> L" unfolding level_inv_def by blast
      with Lt show ?thesis by simp
    next
      assume "(s, x) = t \<and> dc = snd t"
      then show ?thesis by auto
    qed
  next
    fix s x assume "(s, x) \<in> queueA ?st1"
    then have "(s, x) \<in> queueA st" using dq by (simp add: set_remove1_eq)
    then show "snd t \<le> x" by (rule tmin)
  qed
  have 4: "edges_inv n b P ?st1"
    unfolding edges_inv_def
  proof (intro allI impI)
    fix s x f
    assume h: "settled ?st1 s x \<and> node s \<noteq> b \<and> f \<in> set (edges_of n (node s)) \<and> (s, f) \<notin> P"
    then have "settled st s x \<or> ((s, x) = t \<and> dc = snd t)" using new by blast
    then show "\<exists>dn. distA ?st1 (neighbor_of f) = Some dn \<and> unat dn \<le> unat x + hop s f"
    proof
      assume "settled st s x"
      with e h show ?thesis unfolding edges_inv_def by auto
    next
      assume "(s, x) = t \<and> dc = snd t"
      with h P have False by auto
      then show ?thesis ..
    qed
  qed
  have 5: "prev_inv n a b ?st1"
    unfolding prev_inv_def
  proof (intro conjI allI impI)
    fix s x assume "distA ?st1 s = Some x"
    with p show "s = origin a \<or> prevA ?st1 s \<noteq> None" unfolding prev_inv_def by auto
  next
    fix s c assume "prevA ?st1 s = Some c"
    then have "prevA st s = Some c" by simp
    with p obtain g x dc' where g: "edge s = Some g" "node s = e_nextStop g"
      "g \<in> set (edges_of n (node c))" "distA st s = Some x" "settled st c dc'" "node c \<noteq> b"
      "unat x = unat dc' + hop c g" "node c = a \<longrightarrow> c = origin a"
      unfolding prev_inv_def by blast
    from sub[OF g(5)] g show "\<exists>f d dc. edge s = Some f \<and> node s = e_nextStop f \<and>
        f \<in> set (edges_of n (node c)) \<and> distA ?st1 s = Some d \<and> settled ?st1 c dc \<and>
        node c \<noteq> b \<and> unat d = unat dc + hop c f \<and> (node c = a \<longrightarrow> c = origin a)"
      by auto
  qed
  have qsub: "(s, x) \<in> queueA st" if "(s, x) \<in> queueA ?st1" for s x
    using that dq by (simp add: set_remove1_eq)
  have 6: "bound_inv n ?st1"
    unfolding bound_inv_def
  proof (intro conjI allI impI)
    fix s x assume "distA ?st1 s = Some x"
    then have "distA st s = Some x" by simp
    with bo have "unat x \<le> (length (distFromA st) - 1) * slack n"
      unfolding bound_inv_def by blast
    then show "unat x \<le> (length (distFromA ?st1) - 1) * slack n" by simp
  next
    fix s x assume "(s, x) \<in> queueA ?st1"
    then have "(s, x) \<in> queueA st" by (rule qsub)
    with bo have "unat x \<le> (length (distFromA st) - 1) * slack n"
      unfolding bound_inv_def by blast
    then show "unat x \<le> (length (distFromA ?st1) - 1) * slack n" by simp
  qed
  have keep: "swalk a st s bs \<Longrightarrow> swalk a ?st1 s bs" for s bs
    by (erule swalk_mono) (simp add: sub)
  have 7: "walk_inv a ?st1"
    unfolding walk_inv_def
  proof (intro allI impI)
    fix s x assume s1: "settled ?st1 s x"
    from new[OF this] show "\<exists>bs. swalk a ?st1 s bs"
    proof
      assume "settled st s x"
      with w obtain bs where "swalk a st s bs" unfolding walk_inv_def by blast
      then show ?thesis using keep by blast
    next
      assume tt: "(s, x) = t \<and> dc = snd t"
      show ?thesis
      proof (cases "node s = a")
        case True
        then show ?thesis by (blast intro: swalk.swalk_stop)
      next
        case False
        then have so: "s \<noteq> origin a" by auto
        from s1 have ds: "distA st s = Some x" by (simp add: settled_def)
        with p so obtain c where c: "prevA st s = Some c" unfolding prev_inv_def by blast
        with p obtain g dc' where g: "edge s = Some g" "settled st c dc'"
          unfolding prev_inv_def by blast
        with w obtain bs where "swalk a st c bs" unfolding walk_inv_def by blast
        then have "swalk a ?st1 c bs" by (rule keep)
        with False s1 c g(1) have "swalk a ?st1 s (mk_step c s g # bs)"
          by (intro swalk.swalk_step) simp_all
        then show ?thesis ..
      qed
    qed
  qed
  from 1 2 3 4 5 6 7 show ?thesis unfolding dinv_def by blast
qed

lemma step_preserves:
  assumes inv: "dinv n a b L {} st" and no: "no_overflow n" and ab: "a \<noteq> b"
    and ne: "nodesToVisit st \<noteq> []"
  shows "\<exists>L'. dinv n a b L' {} (dijkstra_step n b st)"
proof -
  let ?t = "top (nodesToVisit st)"
  let ?c = "fst ?t" and ?d = "snd ?t"
  let ?st1 = "st\<lparr>nodesToVisit := remove1 ?t (nodesToVisit st)\<rparr>"
  from inv have q: "queue_inv st" and bo: "bound_inv n st" by (simp_all add: dinv_def)
  have tin: "(?c, ?d) \<in> queueA st" using top_in[OF ne] by simp
  with q obtain dc where dc: "distA st ?c = Some dc" "dc \<le> ?d"
    unfolding queue_inv_def by blast
  let ?P = "if dc = ?d \<and> node ?c \<noteq> b then {?c} \<times> set (edges_of n (node ?c)) else {}"
  have d1: "dinv n a b ?d ?P ?st1"
    using inv ne refl dc(1) refl by (rule pop_preserves)
  show ?thesis
  proof (cases "node ?c = b")
    case True
    then have "dijkstra_step n b st = ?st1" by (simp add: dijkstra_step_def Let_def)
    moreover from True d1 have "dinv n a b ?d {} ?st1" by simp
    ultimately show ?thesis by auto
  next
    case False
    from q have dq: "distinct (nodesToVisit st)" by (simp add: queue_inv_def)
    have sc: "settled ?st1 ?c dc"
    proof (cases "dc = ?d")
      case True
      with dc(1) show ?thesis by (simp add: settled_popped[OF dq])
    next
      case ne': False
      have "(?c, dc) \<notin> queueA st"
      proof
        assume "(?c, dc) \<in> queueA st"
        from top_min[OF ne this] have "?d \<le> dc" by simp
        with dc(2) ne' show False by simp
      qed
      with dc(1) show ?thesis by (simp add: settled_popped[OF dq] settled_def)
    qed
    have "unat ?d \<le> (length (distFromA st) - 1) * slack n"
      using bo tin unfolding bound_inv_def by blast
    then have bd: "unat ?d \<le> (length (distFromA ?st1) - 1) * slack n" by simp
    have "fold_pre n a b ?c ?d ?P ?st1"
      unfolding fold_pre_def using d1 no ab False bd sc dc(2) by auto
    then have "fold_pre n a b ?c ?d {} (fold (relax ?c ?d) (edges_of n (node ?c)) ?st1)"
      by (rule fold_relax_preserves) auto
    moreover have "dijkstra_step n b st = fold (relax ?c ?d) (edges_of n (node ?c)) ?st1"
      using False by (simp add: dijkstra_step_def Let_def)
    ultimately show ?thesis by (auto simp: fold_pre_def)
  qed
qed

lemma loop_preserves:
  assumes "dinv n a b L {} st" and "no_overflow n" and "a \<noteq> b"
  shows "\<exists>L'. dinv n a b L' {} (dijkstra_loop n b st) \<and> nodesToVisit (dijkstra_loop n b st) = []"
  using assms
proof (induction n b st arbitrary: L rule: dijkstra_loop.induct)
  case (1 n b st)
  show ?case
  proof (cases "nodesToVisit st = []")
    case True
    then have "dijkstra_loop n b st = st" by (subst dijkstra_loop.simps) simp
    with True "1.prems"(1) show ?thesis by auto
  next
    case False
    from step_preserves[OF "1.prems" False] obtain L' where
      "dinv n a b L' {} (dijkstra_step n b st)" ..
    from "1.IH"[OF False this "1.prems"(2,3)] obtain L'' where
      "dinv n a b L'' {} (dijkstra_loop n b (dijkstra_step n b st)) \<and>
       nodesToVisit (dijkstra_loop n b (dijkstra_step n b st)) = []" ..
    moreover have "dijkstra_loop n b st = dijkstra_loop n b (dijkstra_step n b st)"
      using False by (subst dijkstra_loop.simps) simp
    ultimately show ?thesis by auto
  qed
qed

lemma initial_fold_pre:
  assumes "no_overflow n" and "a \<noteq> b"
  shows "fold_pre n a b (origin a) 0 ({origin a} \<times> set (edges_of n a))
           ((initial a)\<lparr>nodesToVisit := []\<rparr>)"
proof -
  let ?st = "(initial a)\<lparr>nodesToVisit := []\<rparr>"
  let ?P = "{origin a} \<times> set (edges_of n a)"
  have d: "distA (initial a) s = (if s = origin a then Some 0 else None)" for s
    by (simp add: initial_def)
  have s: "settled ?st s x \<longleftrightarrow> s = origin a \<and> x = 0" for s x
    by (auto simp: settled_def d)
  have 1: "keys_inv n a ?st" by (simp add: keys_inv_def initial_def)
  have 2: "queue_inv ?st" by (simp add: queue_inv_def)
  have 3: "level_inv 0 ?st" by (simp add: level_inv_def s)
  have 4: "edges_inv n b ?P ?st" by (simp add: edges_inv_def s)
  have 5: "prev_inv n a b ?st" by (simp add: prev_inv_def initial_def)
  have 6: "bound_inv n ?st" by (simp add: bound_inv_def initial_def)
  have "swalk a ?st (origin a) []" by (rule swalk.swalk_stop) simp
  then have 7: "walk_inv a ?st" unfolding walk_inv_def s by blast
  from 1 2 3 4 5 6 7 have "dinv n a b 0 ?P ?st" unfolding dinv_def by blast
  moreover have "settled ?st (origin a) 0" by (simp add: s)
  ultimately show ?thesis using assms by (auto simp: fold_pre_def)
qed

lemma loop_initial:
  assumes "no_overflow n" and "a \<noteq> b"
  shows "\<exists>L. dinv n a b L {} (dijkstra_loop n b (initial a)) \<and>
             nodesToVisit (dijkstra_loop n b (initial a)) = []"
proof -
  let ?st0 = "(initial a)\<lparr>nodesToVisit := []\<rparr>"
  have t: "top (nodesToVisit (initial a)) = (origin a, 0)" by (simp add: initial_def)
  have step: "dijkstra_step n b (initial a) = fold (relax (origin a) 0) (edges_of n a) ?st0"
    using assms(2) by (simp add: dijkstra_step_def Let_def t) (simp add: initial_def)
  have "fold_pre n a b (origin a) 0 {} (fold (relax (origin a) 0) (edges_of n a) ?st0)"
    using initial_fold_pre[OF assms] by (rule fold_relax_preserves) auto
  then have "dinv n a b 0 {} (dijkstra_step n b (initial a))"
    by (simp add: step fold_pre_def)
  from loop_preserves[OF this assms] obtain L where
    "dinv n a b L {} (dijkstra_loop n b (dijkstra_step n b (initial a))) \<and>
     nodesToVisit (dijkstra_loop n b (dijkstra_step n b (initial a))) = []" ..
  moreover have "dijkstra_loop n b (initial a) = dijkstra_loop n b (dijkstra_step n b (initial a))"
    by (subst dijkstra_loop.simps) (simp add: initial_def)
  ultimately show ?thesis by auto
qed

subsection \<open>The assembled path\<close>

lemma assemble_stop:
  "node stop = a \<Longrightarrow> assemble prev a stop steps = Some (Inr steps)"
  by (subst assemble.simps) simp

lemma assemble_step:
  "node stop \<noteq> a \<Longrightarrow> map_of prev stop = Some p \<Longrightarrow> edge stop = Some e \<Longrightarrow>
   assemble prev a stop steps =
     assemble prev a p
       (steps @ [\<lparr>step_startStationId = node p, step_endStationId = node stop,
                  step_lineId = ri_line (e_route e), step_routeId = ri_id (e_route e),
                  step_travelTime = e_travelTime e\<rparr>])"
  by (subst assemble.simps) simp

lemma sort_PathStopDistCmp_last:
  assumes "paths \<noteq> []"
  shows "last (sort_PathStopDistCmp paths) \<in> set paths"
proof -
  from assms obtain x xs where "paths = x # xs" by (cases paths) auto
  then have "sort_PathStopDistCmp paths \<noteq> []" by (simp add: sort_PathStopDistCmp_def)
  then have "last (sort_PathStopDistCmp paths) \<in> set (sort_PathStopDistCmp paths)"
    by (rule last_in_set)
  then show ?thesis by (simp add: sort_PathStopDistCmp_def)
qed

lemma assemble_swalk:
  "swalk a st s bs \<Longrightarrow> assemble (previousStop st) a s acc = Some (Inr (acc @ bs))"
proof (induction arbitrary: acc rule: swalk.induct)
  case (swalk_stop s)
  then show ?case by (subst assemble.simps) simp
next
  case (swalk_step s d p e bs)
  have "assemble (previousStop st) a s acc =
        assemble (previousStop st) a p (acc @ [mk_step p s e])"
    using swalk_step.hyps by (subst assemble.simps) (simp add: mk_step_def)
  also have "\<dots> = Some (Inr ((acc @ [mk_step p s e]) @ bs))" by (rule swalk_step.IH)
  finally show ?case by simp
qed

lemma route_changes_snoc:
  "route_changes (xs @ [y]) =
     route_changes xs + (if xs \<noteq> [] \<and> step_routeId (last xs) \<noteq> step_routeId y then 1 else 0)"
  by (induction xs rule: route_changes.induct) auto

lemma route_changes_rev: "route_changes (rev xs) = route_changes xs"
proof (induction xs rule: route_changes.induct)
  case (1 x y rest)
  have "route_changes (rev (x # y # rest)) = route_changes (rev (y # rest) @ [x])" by simp
  also have "\<dots> = route_changes (rev (y # rest)) +
      (if step_routeId (last (rev (y # rest))) \<noteq> step_routeId x then 1 else 0)"
    by (subst route_changes_snoc) simp
  also have "last (rev (y # rest)) = y" by simp
  finally show ?case using 1 by auto
qed simp_all

lemma steps_time_rev: "steps_time (rev xs) = steps_time xs"
  by (simp add: steps_time_def rev_map[symmetric])

definition back_cost :: "Step list \<Rightarrow> nat" where
  "back_cost bs = steps_time bs + 5 * route_changes bs"

lemma back_cost_Cons:
  "back_cost (x # bs) =
     unat (step_travelTime x) +
     (if bs \<noteq> [] \<and> step_routeId x \<noteq> step_routeId (hd bs) then 5 else 0) + back_cost bs"
  by (cases bs) (simp_all add: back_cost_def steps_time_def)

lemma swalk_at_A: "swalk a st s bs \<Longrightarrow> node s = a \<Longrightarrow> bs = []"
  by (erule swalk.cases) simp_all

lemma swalk_not_A:
  "swalk a st s bs \<Longrightarrow> node s \<noteq> a \<Longrightarrow>
     \<exists>p e bs'. edge s = Some e \<and> bs = mk_step p s e # bs'"
  by (erule swalk.cases) auto

lemma key_edge:
  assumes "keys_inv n a st" and "distA st s = Some x"
  shows "s = origin a \<or> (\<exists>e \<in> set (all_edges n). s = neighbor_of e)"
proof -
  from assms(2) have "s \<in> fst ` set (distFromA st)"
    by (force dest: map_of_SomeD)
  with assms(1) show ?thesis by (auto simp: keys_inv_def)
qed

lemma swalk_cost:
  assumes k: "keys_inv n a st" and p: "prev_inv n a b st" and r: "route_ids_identify n"
  shows "swalk a st s bs \<Longrightarrow> (node s = a \<longrightarrow> s = origin a) \<Longrightarrow> distA st s = Some x \<Longrightarrow>
         back_cost bs = unat x"
proof (induction arbitrary: x rule: swalk.induct)
  case (swalk_stop s)
  then have "s = origin a" by simp
  with k swalk_stop.prems(2) have "x = 0" by (simp add: keys_inv_def)
  then show ?case by (simp add: back_cost_def steps_time_def)
next
  case (swalk_step s d q e bs)
  from p swalk_step.hyps(3) obtain g x' dc where g: "edge s = Some g"
    "g \<in> set (edges_of n (node q))" "distA st s = Some x'" "settled st q dc"
    "unat x' = unat dc + hop q g" "node q = a \<longrightarrow> q = origin a"
    unfolding prev_inv_def by blast
  from g(1) swalk_step.hyps(4) have ge: "g = e" by simp
  from g(3) swalk_step.prems(2) have xx: "x' = x" by simp
  from g(4) have dq: "distA st q = Some dc" by (simp add: settled_def)
  from swalk_step.IH[OF g(6) dq] have ih: "back_cost bs = unat dc" .
  have ea: "e \<in> set (all_edges n)" using g(2) ge edges_of_subset by blast
  have pen: "(if bs \<noteq> [] \<and> step_routeId (mk_step q s e) \<noteq> step_routeId (hd bs) then 5 else 0)
             = pen q e"
  proof (cases "node q = a")
    case True
    with g(6) have "q = origin a" by simp
    moreover from swalk_step.hyps(5) True have "bs = []" by (rule swalk_at_A)
    ultimately show ?thesis by (simp add: pen_def)
  next
    case False
    from swalk_not_A[OF swalk_step.hyps(5) False] obtain q' eq bs' where
      eq: "edge q = Some eq" "bs = mk_step q' q eq # bs'" by blast
    from key_edge[OF k dq] False obtain e' where "e' \<in> set (all_edges n)" "q = neighbor_of e'"
      by auto
    with eq(1) have "eq \<in> set (all_edges n)" by simp
    with r ea have "(ri_id (e_route e) = ri_id (e_route eq)) =
                    (ri_addr (e_route e) = ri_addr (e_route eq))"
      unfolding route_ids_identify_def by blast
    then show ?thesis using eq by (auto simp: pen_def mk_step_def)
  qed
  have "back_cost (mk_step q s e # bs) = unat (e_travelTime e) + pen q e + back_cost bs"
    unfolding back_cost_Cons pen by (simp add: mk_step_def)
  with ih g(5) ge xx show ?case by (simp add: hop_def)
qed

subsection \<open>The total travel time of the fastest route\<close>

lemma overflow_network_eq:
  "overflow_network =
     \<lparr>stations =
        [(''A'', \<lparr>gn_id = ''A'', gn_name = ''A'', gn_passengerCount = 0,
                  gn_edges = [\<lparr>e_addr = 1, e_route = rR1, e_nextStop = ''X'', e_travelTime = 10\<rparr>,
                              \<lparr>e_addr = 5, e_route = rR2, e_nextStop = ''Y'', e_travelTime = 5\<rparr>]\<rparr>),
         (''X'', \<lparr>gn_id = ''X'', gn_name = ''X'', gn_passengerCount = 0,
                  gn_edges = [\<lparr>e_addr = 2, e_route = rR1, e_nextStop = ''C'',
                               e_travelTime = 4294967283\<rparr>]\<rparr>),
         (''Y'', \<lparr>gn_id = ''Y'', gn_name = ''Y'', gn_passengerCount = 0,
                  gn_edges = [\<lparr>e_addr = 6, e_route = rR2, e_nextStop = ''X'', e_travelTime = 6\<rparr>]\<rparr>),
         (''C'', \<lparr>gn_id = ''C'', gn_name = ''C'', gn_passengerCount = 0,
                  gn_edges = [\<lparr>e_addr = 3, e_route = rR1, e_nextStop = ''B'', e_travelTime = 3\<rparr>]\<rparr>),
         (''B'', \<lparr>gn_id = ''B'', gn_name = ''B'', gn_passengerCount = 0, gn_edges = []\<rparr>)],
      lines =
        [(''L1'', \<lparr>li_id = ''L1'', li_name = ''L1'', li_routes = [(''R1'', rR1)]\<rparr>),
         (''L2'', \<lparr>li_id = ''L2'', li_name = ''L2'', li_routes = [(''R2'', rR2)]\<rparr>)],
      next_addr = 7\<rparr>"
  by (simp add: overflow_network_def set_times_def build_defs SetTravelTime_def setTravelTime_def
        rR1_def rR2_def)

lemmas edge_defs = e_AX_def e_AY_def e_XC_def e_YX_def e_CB_def rR1_def rR2_def

lemma overflow_loop: "dijkstra_loop overflow_network ''B'' (initial ''A'') = overflow_final"
  by (simp add: overflow_network_eq GetStation_def Let_def initial_def origin_def
      dijkstra_loop.simps dijkstra_step_def relax_def edges_of_def edge_defs
      overflow_final_def neighbor_of_def)

lemma overflow_fastest:
  "GetFastestTravelRoute overflow_network ''A'' ''B'' = Some (Inr overflow_route)"
proof -
  have st: "GetStation overflow_network ''A'' \<noteq> None" "GetStation overflow_network ''B'' \<noteq> None"
    by (simp_all add: overflow_network_eq GetStation_def)
  have loop: "dijkstra_loop overflow_network ''B''
       \<lparr>distFromA = [(\<lparr>node = ''A'', edge = None\<rparr>, 0)], previousStop = [],
        nodesToVisit = [(\<lparr>node = ''A'', edge = None\<rparr>, 0)]\<rparr> = overflow_final"
    using overflow_loop by (simp add: initial_def origin_def)
  have paths: "filter (\<lambda>pd. node (fst pd) = ''B'') (distFromA overflow_final) =
                 [(neighbor_of e_CB, 0)]"
    by (simp add: overflow_final_def neighbor_of_def origin_def edge_defs)
  have best: "last (sort_PathStopDistCmp [(neighbor_of e_CB, 0 :: 32 word)]) = (neighbor_of e_CB, 0)"
    by (simp add: sort_PathStopDistCmp_def)
  have asm: "assemble (previousStop overflow_final) ''A'' (neighbor_of e_CB) [] =
               Some (Inr (rev (tr_steps overflow_route)))"
    by (simp add: assemble_step assemble_stop overflow_final_def neighbor_of_def origin_def
          edge_defs overflow_route_def)
  from st obtain na nb where "GetStation overflow_network ''A'' = Some na"
    "GetStation overflow_network ''B'' = Some nb" by auto
  then show ?thesis
    by (simp add: GetFastestTravelRoute_def Let_def loop paths best asm overflow_route_def)
qed

text \<open>
  Claim C4 as stated fails when the distances wrap around in \<^verbatim>\<open>unsigned int\<close>. In the
  network above the search first records the stop C at distance \<open>2^32 - 3\<close>, then at the
  wrapped distance 3, and later relaxes the edge to B from the stale queue entry of C.
  The route returned from A to B has total travel time 0, while its four steps add up to
  \<open>2^32 + 1\<close> and it changes route once; the equation fails over the naturals and also
  modulo \<open>2^32\<close>.
\<close>

theorem fastest_total_time_overflow:
  "GetFastestTravelRoute overflow_network ''A'' ''B'' = Some (Inr overflow_route) \<and>
   steps_time (tr_steps overflow_route) + 5 * route_changes (tr_steps overflow_route)
     \<noteq> unat (tr_totalTravelTime overflow_route) \<and>
   sum_list (map step_travelTime (tr_steps overflow_route))
     + 5 * of_nat (route_changes (tr_steps overflow_route))
     \<noteq> tr_totalTravelTime overflow_route"
  using overflow_fastest by (simp add: overflow_route_def steps_time_def)


text \<open>
  Claim C4, amended: in a network whose route ids are unique and in which no distance can
  leave the range of \<^verbatim>\<open>unsigned int\<close>, \<^verbatim>\<open>GetFastestTravelRoute\<close> returns a route for
  every pair of ids (its loops end and nothing is thrown), and the sum of the travel times
  of the steps plus 5 times the number of adjacent steps with different route ids is the
  total travel time. No penalty is counted for the first step.
\<close>

theorem fastest_total_time:
  assumes no: "no_overflow n" and r: "route_ids_identify n"
  shows "\<exists>route. GetFastestTravelRoute n a b = Some (Inr route) \<and>
           steps_time (tr_steps route) + 5 * route_changes (tr_steps route) =
             unat (tr_totalTravelTime route)"
proof (cases "GetStation n a = None \<or> GetStation n b = None")
  case True
  then have "GetFastestTravelRoute n a b = Some (Inr default_TravelRoute)"
    by (auto simp: GetFastestTravelRoute_def split: option.splits)
  then show ?thesis by (simp add: default_TravelRoute_def steps_time_def)
next
  case False
  then obtain na nb where na: "GetStation n a = Some na" and nb: "GetStation n b = Some nb"
    by auto
  show ?thesis
  proof (cases "a = b")
    case True
    with na show ?thesis by (simp add: GetFastestTravelRoute_def steps_time_def)
  next
    case ab: False
    let ?st = "dijkstra_loop n b (initial a)"
    let ?paths = "filter (\<lambda>pd. node (fst pd) = b) (distFromA ?st)"
    from loop_initial[OF no ab] obtain L where inv: "dinv n a b L {} ?st"
      and q: "nodesToVisit ?st = []" by blast
    show ?thesis
    proof (cases "?paths = []")
      case True
      with na nb ab show ?thesis
        by (simp add: GetFastestTravelRoute_def Let_def initial_def origin_def steps_time_def)
    next
      case False
      let ?best = "last (sort_PathStopDistCmp ?paths)"
      have bin: "?best \<in> set ?paths" using False by (rule sort_PathStopDistCmp_last)
      then have bd: "?best \<in> set (distFromA ?st)" and bb: "node (fst ?best) = b" by auto
      from inv have k: "keys_inv n a ?st" and p: "prev_inv n a b ?st" and w: "walk_inv a ?st"
        by (simp_all add: dinv_def)
      from k have dk: "distinct (map fst (distFromA ?st))" by (simp add: keys_inv_def)
      from bd have "(fst ?best, snd ?best) \<in> set (distFromA ?st)" by simp
      with dk have d: "distA ?st (fst ?best) = Some (snd ?best)" by (rule map_of_is_SomeI)
      then have "settled ?st (fst ?best) (snd ?best)" using q by (simp add: settled_def)
      with w obtain bs where bs: "swalk a ?st (fst ?best) bs" unfolding walk_inv_def by blast
      have asm: "assemble (previousStop ?st) a (fst ?best) [] = Some (Inr bs)"
        using assemble_swalk[OF bs, of "[]"] by simp
      have "node (fst ?best) = a \<longrightarrow> fst ?best = origin a" using bb ab by simp
      from swalk_cost[OF k p r bs this d] have cost: "back_cost bs = unat (snd ?best)" .
      have res: "GetFastestTravelRoute n a b =
          Some (Inr \<lparr>tr_startStationId = a, tr_endStationId = b,
                     tr_totalTravelTime = snd ?best, tr_steps = rev bs\<rparr>)"
        using na nb ab False asm
        by (simp add: GetFastestTravelRoute_def Let_def initial_def origin_def)
      show ?thesis
        unfolding res using cost
        by (simp add: back_cost_def steps_time_rev route_changes_rev)
    qed
  qed
qed


lemma transfer_network_eq:
  "transfer_network =
     \<lparr>stations =
        [(''A'', \<lparr>gn_id = ''A'', gn_name = ''A'', gn_passengerCount = 0, gn_edges = [t_AB, t_AX]\<rparr>),
         (''X'', \<lparr>gn_id = ''X'', gn_name = ''X'', gn_passengerCount = 0, gn_edges = [t_XB]\<rparr>),
         (''B'', \<lparr>gn_id = ''B'', gn_name = ''B'', gn_passengerCount = 0, gn_edges = []\<rparr>)],
      lines =
        [(''L1'', \<lparr>li_id = ''L1'', li_name = ''L1'', li_routes = [(''R1'', e_route t_AB)]\<rparr>),
         (''L2'', \<lparr>li_id = ''L2'', li_name = ''L2'', li_routes = [(''R2'', e_route t_AX)]\<rparr>),
         (''L3'', \<lparr>li_id = ''L3'', li_name = ''L3'', li_routes = [(''R3'', e_route t_XB)]\<rparr>)],
      next_addr = 6\<rparr>"
  by (simp add: transfer_network_def set_times_def build_defs SetTravelTime_def setTravelTime_def
        t_AB_def t_AX_def t_XB_def)

lemma transfer_loop:
  "dijkstra_loop transfer_network ''B'' (initial ''A'') = transfer_final"
  by (simp add: transfer_network_eq GetStation_def Let_def initial_def origin_def
      dijkstra_loop.simps dijkstra_step_def relax_def edges_of_def t_AB_def t_AX_def t_XB_def
      neighbor_of_def transfer_final_def)

lemma transfer_fastest:
  "GetFastestTravelRoute transfer_network ''A'' ''B'' = Some (Inr transfer_route)"
proof -
  have st: "GetStation transfer_network ''A'' \<noteq> None" "GetStation transfer_network ''B'' \<noteq> None"
    by (simp_all add: transfer_network_eq GetStation_def)
  have loop: "dijkstra_loop transfer_network ''B''
       \<lparr>distFromA = [(\<lparr>node = ''A'', edge = None\<rparr>, 0)], previousStop = [],
        nodesToVisit = [(\<lparr>node = ''A'', edge = None\<rparr>, 0)]\<rparr> = transfer_final"
    using transfer_loop by (simp add: initial_def origin_def)
  have paths: "filter (\<lambda>pd. node (fst pd) = ''B'') (distFromA transfer_final) =
                 [(neighbor_of t_AB, 10), (neighbor_of t_XB, 9)]"
    by (simp add: transfer_final_def neighbor_of_def origin_def t_AB_def t_AX_def t_XB_def)
  have best: "last (sort_PathStopDistCmp [(neighbor_of t_AB, 10 :: 32 word), (neighbor_of t_XB, 9)])
                = (neighbor_of t_XB, 9)"
    by (simp add: sort_PathStopDistCmp_def)
  have asm: "assemble (previousStop transfer_final) ''A'' (neighbor_of t_XB) [] =
               Some (Inr (rev (tr_steps transfer_route)))"
    by (simp add: assemble_step assemble_stop transfer_final_def neighbor_of_def origin_def
          t_AB_def t_AX_def t_XB_def transfer_route_def)
  from st obtain na nb where "GetStation transfer_network ''A'' = Some na"
    "GetStation transfer_network ''B'' = Some nb" by auto
  then show ?thesis
    by (simp add: GetFastestTravelRoute_def Let_def loop paths best asm transfer_route_def)
qed

theorem fastest_total_time_witness:
  "no_overflow transfer_network \<and> route_ids_identify transfer_network \<and>
   GetFastestTravelRoute transfer_network ''A'' ''B'' = Some (Inr transfer_route) \<and>
   route_changes (tr_steps transfer_route) = 1 \<and>
   steps_time (tr_steps transfer_route) + 5 * route_changes (tr_steps transfer_route) =
     unat (tr_totalTravelTime transfer_route)"
proof -
  have e: "all_edges transfer_network = [t_AB, t_AX, t_XB]"
    by (simp add: transfer_network_eq all_edges_def)
  have no: "no_overflow transfer_network"
    by (simp add: no_overflow_def max_travel_time_def e t_AB_def t_AX_def t_XB_def)
  have r: "route_ids_identify transfer_network"
    by (simp add: route_ids_identify_def e t_AB_def t_AX_def t_XB_def)
  from fastest_total_time[OF no r, of "''A''" "''B''"] transfer_fastest
  have "steps_time (tr_steps transfer_route) + 5 * route_changes (tr_steps transfer_route) =
     unat (tr_totalTravelTime transfer_route)" by simp
  moreover have "route_changes (tr_steps transfer_route) = 1"
    by (simp add: transfer_route_def)
  ultimately show ?thesis using no r transfer_fastest by simp
qed

subsection \<open>The quiet route with a zero slowdown budget\<close>















end
